theory Spec2Isabelle
  imports Main
begin

section \<open>Python text primitives\<close>

text \<open>
  The outline parser works on Python \<open>str\<close> values. A text is modelled as a
  \<open>string\<close> whose characters are read as the code points U+0000 to U+00FF, one
  character per code point. The character classes below are those of Python 3 on this
  range: \<open>str.isspace\<close> and the pattern class \<open>\s\<close> agree there, \<open>\d\<close> is the ten
  Arabic digits, and \<open>str.isdigit\<close> also accepts the three superscript digits.
\<close>

definition isspace :: "char \<Rightarrow> bool" where
  "isspace c \<longleftrightarrow> c \<in> set [CHR 0x09, CHR 0x0A, CHR 0x0B, CHR 0x0C, CHR 0x0D,
     CHR 0x1C, CHR 0x1D, CHR 0x1E, CHR 0x1F, CHR 0x20, CHR 0x85, CHR 0xA0]"

definition is_linebreak :: "char \<Rightarrow> bool" where
  "is_linebreak c \<longleftrightarrow> c \<in> set [CHR 0x0A, CHR 0x0B, CHR 0x0C, CHR 0x0D,
     CHR 0x1C, CHR 0x1D, CHR 0x1E, CHR 0x85]"

definition is_decimal :: "char \<Rightarrow> bool" where
  "is_decimal c \<longleftrightarrow> c \<in> set ''0123456789''"

definition is_superscript_digit :: "char \<Rightarrow> bool" where
  "is_superscript_digit c \<longleftrightarrow> c \<in> set [CHR 0xB2, CHR 0xB3, CHR 0xB9]"

definition lstrip :: "string \<Rightarrow> string" where
  "lstrip s = dropWhile isspace s"

definition rstrip :: "string \<Rightarrow> string" where
  "rstrip s = rev (dropWhile isspace (rev s))"

definition strip :: "string \<Rightarrow> string" where
  "strip s = lstrip (rstrip s)"

text \<open>\<open>sep.join(xs)\<close>.\<close>

fun join :: "string \<Rightarrow> string list \<Rightarrow> string" where
  "join sep [] = []"
| "join sep [x] = x"
| "join sep (x # y # ys) = x @ sep @ join sep (y # ys)"

text \<open>
  \<open>str.splitlines()\<close>: the text is cut at every line boundary, a carriage return
  followed by a line feed counts as one boundary, the boundaries are dropped, and a
  text that ends in a boundary has no empty last line.
\<close>

function splitlines :: "string \<Rightarrow> string list" where
  "splitlines [] = []"
| "splitlines (c # cs) =
     takeWhile (\<lambda>x. \<not> is_linebreak x) (c # cs) #
       (case dropWhile (\<lambda>x. \<not> is_linebreak x) (c # cs) of
          [] \<Rightarrow> []
        | b # bs \<Rightarrow>
            (case bs of
               [] \<Rightarrow> []
             | d # ds \<Rightarrow> if b = CHR 0x0D \<and> d = CHR 0x0A then splitlines ds else splitlines bs))"
  by pat_completeness auto
termination
proof (relation "measure length")
  show "wf (measure length)" by simp
next
  fix c cs b bs d ds
  assume cut: "dropWhile (\<lambda>x. \<not> is_linebreak x) (c # cs) = b # bs" and "bs = d # ds"
  have "length (dropWhile (\<lambda>x. \<not> is_linebreak x) (c # cs)) \<le> length (c # cs)"
    by (rule length_dropWhile_le)
  with cut have shorter: "length bs < length (c # cs)" by simp
  then show "(bs, c # cs) \<in> measure length" by simp
  from shorter \<open>bs = d # ds\<close> show "(ds, c # cs) \<in> measure length" by simp
qed

text \<open>
  \<open>str.expandtabs(tabsize)\<close>: a tab becomes the spaces up to the next tab stop, a
  line feed or carriage return is copied and sets the column back to zero, any other
  character is copied and advances the column by one.
\<close>

fun expandtabs_from :: "nat \<Rightarrow> nat \<Rightarrow> string \<Rightarrow> string" where
  "expandtabs_from tabsize line_pos [] = []"
| "expandtabs_from tabsize line_pos (ch # rest) =
     (if ch = CHR 0x09 then
        (if 0 < tabsize then
           replicate (tabsize - line_pos mod tabsize) CHR '' '' @
             expandtabs_from tabsize (line_pos + (tabsize - line_pos mod tabsize)) rest
         else expandtabs_from tabsize line_pos rest)
      else if ch = CHR 0x0A \<or> ch = CHR 0x0D then ch # expandtabs_from tabsize 0 rest
      else ch # expandtabs_from tabsize (Suc line_pos) rest)"

definition expandtabs :: "nat \<Rightarrow> string \<Rightarrow> string" where
  "expandtabs tabsize s = expandtabs_from tabsize 0 s"

text \<open>
  \<open>str.upper()\<close> on U+0000 to U+00FF: the ASCII and the accented small letters move
  to their capitals and U+00DF becomes the two letters SS. The capitals of U+00B5 and
  U+00FF lie beyond U+00FF; these two characters are kept as they are, which no caller
  can tell apart, because the only use of \<open>upper\<close> is the lookup in \<open>roman_map\<close>,
  whose keys are seven ASCII capitals.
\<close>

definition upper_char :: "char \<Rightarrow> string" where
  "upper_char c =
     (let n = (of_char c :: nat) in
      if 97 \<le> n \<and> n \<le> 122 then [char_of (n - 32)]
      else if n = 223 then ''SS''
      else if 224 \<le> n \<and> n \<le> 254 \<and> n \<noteq> 247 then [char_of (n - 32)]
      else [c])"

definition upper :: "string \<Rightarrow> string" where
  "upper s = concat (map upper_char s)"

section \<open>Numeral conversion\<close>

datatype error = ValueError | IndexError

text \<open>
  \<open>str.isdigit()\<close>: the text is not empty and each character is an Arabic digit or a
  superscript digit.
\<close>

definition isdigit :: "string \<Rightarrow> bool" where
  "isdigit s \<longleftrightarrow> s \<noteq> [] \<and> list_all (\<lambda>c. is_decimal c \<or> is_superscript_digit c) s"

definition digit_value :: "char \<Rightarrow> int" where
  "digit_value c = int (of_char c) - 48"

text \<open>
  \<open>sys.int_info.default_max_str_digits\<close>: the interpreter converts no text of more
  digits than this to an integer.
\<close>

definition int_max_str_digits :: nat where
  "int_max_str_digits = 4300"

text \<open>
  \<open>int(s)\<close> for a text that \<open>isdigit\<close> accepts: the decimal value when every
  character is an Arabic digit and the digits are no more than the interpreter converts
  (leading zeros count); \<open>int\<close> raises ValueError for a longer text, and for a
  superscript digit, which is no literal for it.
\<close>

definition py_int :: "string \<Rightarrow> error + int" where
  "py_int s =
     (if list_all is_decimal s then
        (if int_max_str_digits < length s then Inl ValueError
         else Inr (foldl (\<lambda>acc c. 10 * acc + digit_value c) 0 s))
      else Inl ValueError)"

definition roman_map :: "char \<Rightarrow> int option" where
  "roman_map =
     [CHR ''I'' \<mapsto> 1, CHR ''V'' \<mapsto> 5, CHR ''X'' \<mapsto> 10, CHR ''L'' \<mapsto> 50,
      CHR ''C'' \<mapsto> 100, CHR ''D'' \<mapsto> 500, CHR ''M'' \<mapsto> 1000]"

definition roman_get :: "char \<Rightarrow> int" where
  "roman_get char = (case roman_map char of Some v \<Rightarrow> v | None \<Rightarrow> 0)"

text \<open>One round of the loop over the reversed text; the state is \<open>(result, prev_value)\<close>.\<close>

definition roman_step :: "int \<times> int \<Rightarrow> char \<Rightarrow> int \<times> int" where
  "roman_step st char =
     (case st of (result, prev_value) \<Rightarrow>
        let value = roman_get char
        in (result + (if value < prev_value then - value else value), value))"

definition convert_to_number :: "string \<Rightarrow> error + int" where
  "convert_to_number page_str =
     (if page_str = [] then Inr 0
      else if isdigit page_str then py_int page_str
      else Inr (max (fst (foldl roman_step (0, 0) (rev (upper page_str)))) 0))"

section \<open>Regular expressions\<close>

text \<open>
  The patterns of the parser use character classes, greedy repetition of a class with a
  least count (\<open>+\<close>, \<open>*\<close>, \<open>{n,}\<close>), sequence, alternative, capture groups and the
  end anchor. \<open>rmatch r (g, s)\<close> lists the ways \<open>r\<close> matches a prefix of \<open>s\<close>, as the
  groups set so far and the text left over, in the order in which the backtracking
  matcher of Python's \<open>re\<close> tries them: the first alternative first, the longest
  repetition first. Its head is the match \<open>re\<close> reports.
\<close>

datatype regex =
    Cls "char \<Rightarrow> bool"
  | Rep nat "char \<Rightarrow> bool"
  | Seq regex regex
  | Alt regex regex
  | Grp nat regex
  | Eol

type_synonym groups = "nat \<Rightarrow> string option"

fun rmatch :: "regex \<Rightarrow> groups \<times> string \<Rightarrow> (groups \<times> string) list" where
  "rmatch (Cls P) (g, s) = (case s of [] \<Rightarrow> [] | c # cs \<Rightarrow> if P c then [(g, cs)] else [])"
| "rmatch (Rep n P) (g, s) =
     map (\<lambda>k. (g, drop k s)) (rev [n ..< Suc (length (takeWhile P s))])"
| "rmatch (Seq a b) st = concat (map (rmatch b) (rmatch a st))"
| "rmatch (Alt a b) st = rmatch a st @ rmatch b st"
| "rmatch (Grp i r) (g, s) =
     map (\<lambda>(g', s'). (g'(i \<mapsto> take (length s - length s') s), s')) (rmatch r (g, s))"
| "rmatch Eol (g, s) = (if s = [] \<or> s = [CHR 0x0A] then [(g, s)] else [])"

text \<open>
  A match object: where the match starts, its groups, and the text after its end.
\<close>

record match =
  m_start :: nat
  m_groups :: groups
  m_rest :: string

text \<open>
  \<open>m.group(i)\<close>. In every pattern below each group takes part in every match; a
  group that took no part reads as the empty text here.
\<close>

definition group :: "match \<Rightarrow> nat \<Rightarrow> string" where
  "group m i = (case m_groups m i of Some x \<Rightarrow> x | None \<Rightarrow> [])"

text \<open>
  \<open>re.match\<close> tries the pattern at the start of the text only. A leading \<open>^\<close> of a
  pattern given to \<open>re.match\<close> holds there and is left out of the pattern.
\<close>

definition re_match :: "regex \<Rightarrow> string \<Rightarrow> match option" where
  "re_match r s =
     (case rmatch r (Map.empty, s) of
        [] \<Rightarrow> None
      | (g, s') # _ \<Rightarrow> Some \<lparr>m_start = 0, m_groups = g, m_rest = s'\<rparr>)"

text \<open>\<open>re.search\<close> tries the start positions from left to right, the end included.\<close>

fun search_from :: "regex \<Rightarrow> nat \<Rightarrow> string \<Rightarrow> match option" where
  "search_from r pos [] =
     (case rmatch r (Map.empty, []) of
        [] \<Rightarrow> None
      | (g, s') # _ \<Rightarrow> Some \<lparr>m_start = pos, m_groups = g, m_rest = s'\<rparr>)"
| "search_from r pos (c # cs) =
     (case rmatch r (Map.empty, c # cs) of
        [] \<Rightarrow> search_from r (Suc pos) cs
      | (g, s') # _ \<Rightarrow> Some \<lparr>m_start = pos, m_groups = g, m_rest = s'\<rparr>)"

definition re_search :: "regex \<Rightarrow> string \<Rightarrow> match option" where
  "re_search r s = search_from r 0 s"

text \<open>
  \<open>re.sub(pattern, repl, s)\<close>: each match, from left to right, is replaced by what
  \<open>repl\<close> makes of it. After an empty match one character is copied before the search
  goes on.
\<close>

function re_sub :: "regex \<Rightarrow> (match \<Rightarrow> string) \<Rightarrow> string \<Rightarrow> string" where
  "re_sub r repl s =
     (case re_search r s of
        None \<Rightarrow> s
      | Some m \<Rightarrow>
          take (m_start m) s @ repl m @
            (if length (m_rest m) < length s then re_sub r repl (m_rest m)
             else case s of [] \<Rightarrow> [] | c # cs \<Rightarrow> c # re_sub r repl cs))"
  by pat_completeness auto
termination
  by (relation "measure (\<lambda>(r, repl, s). length s)") auto

text \<open>
  \<open>re.split(pattern, s, 1)\<close> for a pattern with one group: the text before the first
  match, the group, the text after the match; the whole text when nothing matches.
\<close>

definition re_split1 :: "regex \<Rightarrow> string \<Rightarrow> string list" where
  "re_split1 r s =
     (case re_search r s of
        None \<Rightarrow> [s]
      | Some m \<Rightarrow> [take (m_start m) s, group m 1, m_rest m])"

subsection \<open>The patterns of the parser\<close>

definition is_roman_capital :: "char \<Rightarrow> bool" where
  "is_roman_capital c \<longleftrightarrow> c \<in> set ''IVXLCDM''"

definition is_dot_dash_space :: "char \<Rightarrow> bool" where
  "is_dot_dash_space c \<longleftrightarrow> c \<in> set ''.- ''"

definition is_ascii_capital :: "char \<Rightarrow> bool" where
  "is_ascii_capital c \<longleftrightarrow> c \<in> set ''ABCDEFGHIJKLMNOPQRSTUVWXYZ''"

text \<open>\<^verbatim>\<open>(\d+|[IVXLCDM]+)\<close> as group \<open>i\<close>.\<close>

definition numeral_group :: "nat \<Rightarrow> regex" where
  "numeral_group i = Grp i (Alt (Rep 1 is_decimal) (Rep 1 is_roman_capital))"

text \<open>\<^verbatim>\<open>([\.\- ]{3,}|\(|\s)(\d+|[IVXLCDM]+)\s*$\<close>\<close>

definition page_number_re :: regex where
  "page_number_re =
     Seq (Grp 1 (Alt (Rep 3 is_dot_dash_space) (Alt (Cls (\<lambda>c. c = CHR ''('')) (Cls isspace))))
       (Seq (numeral_group 2) (Seq (Rep 0 isspace) Eol))"

text \<open>\<^verbatim>\<open>^(\d+\.|[A-Z]\.|\-|\*)\s\<close>, given to \<open>re.match\<close>\<close>

definition list_marker_re :: regex where
  "list_marker_re =
     Seq (Grp 1 (Alt (Seq (Rep 1 is_decimal) (Cls (\<lambda>c. c = CHR ''.'')))
            (Alt (Seq (Cls is_ascii_capital) (Cls (\<lambda>c. c = CHR ''.'')))
              (Alt (Cls (\<lambda>c. c = CHR ''-'')) (Cls (\<lambda>c. c = CHR ''*''))))))
       (Cls isspace)"

text \<open>\<^verbatim>\<open>\s+(\d+|[IVXLCDM]+)\s*$\<close>\<close>

definition spaced_number_re :: regex where
  "spaced_number_re = Seq (Rep 1 isspace) (Seq (numeral_group 1) (Seq (Rep 0 isspace) Eol))"

text \<open>\<^verbatim>\<open>\s+(\d+|[IVXLCDM]+)$\<close>\<close>

definition page_match_re :: regex where
  "page_match_re = Seq (Rep 1 isspace) (Seq (numeral_group 1) Eol)"

text \<open>\<^verbatim>\<open>\d+$\<close>\<close>

definition digits_end_re :: regex where
  "digits_end_re = Seq (Rep 1 is_decimal) Eol"

text \<open>
  \<^verbatim>\<open>^.*[^\s]\s[0-9]+$\<close>, given to \<open>re.match\<close>; the dot is any character but the
  line feed.
\<close>

definition one_space_re :: regex where
  "one_space_re =
     Seq (Rep 0 (\<lambda>c. c \<noteq> CHR 0x0A))
       (Seq (Cls (\<lambda>c. \<not> isspace c)) (Seq (Cls isspace) (Seq (Rep 1 is_decimal) Eol)))"

text \<open>\<^verbatim>\<open>\s{2,}\d+$\<close>\<close>

definition two_spaces_re :: regex where
  "two_spaces_re = Seq (Rep 2 isspace) (Seq (Rep 1 is_decimal) Eol)"

text \<open>\<^verbatim>\<open>\s+(\d+)$\<close>\<close>

definition split_re :: regex where
  "split_re = Seq (Rep 1 isspace) (Seq (Grp 1 (Rep 1 is_decimal)) Eol)"

section \<open>The beautifier\<close>

text \<open>\<open>len(line) - len(line.lstrip())\<close>\<close>

definition indent_of :: "string \<Rightarrow> nat" where
  "indent_of line = length line - length (lstrip line)"

text \<open>
  One round of the loop of \<open>is_beautified\<close> on a line that is not blank: \<open>False\<close>
  where the loop returns \<open>False\<close>, \<open>True\<close> where it goes on to the next line.
\<close>

definition line_is_beautified :: "string \<Rightarrow> bool" where
  "line_is_beautified line =
     (let indentation = indent_of line;
          content = strip line
      in if indentation mod 4 \<noteq> 0 then False
         else if re_search digits_end_re content \<noteq> None then
           (if re_match one_space_re content = None then False
            else if re_search two_spaces_re content \<noteq> None then False
            else True)
         else True)"

fun lines_are_beautified :: "string list \<Rightarrow> bool" where
  "lines_are_beautified [] = True"
| "lines_are_beautified (line # rest) =
     (if strip line = [] then lines_are_beautified rest
      else if \<not> line_is_beautified line then False
      else lines_are_beautified rest)"

definition is_beautified :: "string \<Rightarrow> bool" where
  "is_beautified outline =
     (let lines = splitlines outline
      in if lines = [] then False else lines_are_beautified lines)"

text \<open>
  The content of a line as \<open>beautify_outline\<close> writes it again: split at the trailing
  number, and joined with one space when the split gave three parts.
\<close>

definition respace :: "string \<Rightarrow> string" where
  "respace content =
     (case re_split1 split_re (strip content) of
        [title, page_num, _] \<Rightarrow> rstrip title @ '' '' @ page_num
      | _ \<Rightarrow> content)"

text \<open>
  The loop of \<open>beautify_outline\<close>, from the value of \<open>last_indent_level\<close> on: the
  lines it appends to \<open>beautified\<close>, in order.
\<close>

fun beautify_lines :: "int \<Rightarrow> string list \<Rightarrow> string list" where
  "beautify_lines last_indent_level [] = []"
| "beautify_lines last_indent_level (line # rest) =
     (if strip line = [] then beautify_lines last_indent_level rest
      else
        let indent = indent_of line;
            content = strip line;
            indent_level = indent div 4
        in (if indent_level = 0 \<and> last_indent_level \<noteq> - 1 then [[]] else []) @
           [replicate (indent_level * 4) CHR '' '' @ respace content] @
           beautify_lines (int indent_level) rest)"

definition beautify_outline :: "string \<Rightarrow> string" where
  "beautify_outline outline =
     (if is_beautified outline then outline
      else join ''\<newline>'' (beautify_lines (- 1) (splitlines outline)))"

section \<open>The normalizer\<close>

record norm_state =
  clean_lines :: "string list"
  current_item :: "string option"
  current_indent :: nat
  last_line_was_terminated :: bool

definition has_page_number :: "string \<Rightarrow> bool" where
  "has_page_number content \<longleftrightarrow> re_search page_number_re content \<noteq> None"

definition starts_with_number :: "string \<Rightarrow> bool" where
  "starts_with_number content \<longleftrightarrow> re_match list_marker_re content \<noteq> None"

definition is_continuation :: "norm_state \<Rightarrow> string \<Rightarrow> bool" where
  "is_continuation st content \<longleftrightarrow>
     \<not> last_line_was_terminated st \<and> \<not> has_page_number content \<and>
     \<not> starts_with_number content \<and> current_item st \<noteq> None"

text \<open>\<open>('    ' * current_indent) + current_item\<close>, appended when an item is open.\<close>

definition finalize_item :: "norm_state \<Rightarrow> string list" where
  "finalize_item st =
     (case current_item st of
        None \<Rightarrow> clean_lines st
      | Some item \<Rightarrow> clean_lines st @ [concat (replicate (current_indent st) ''    '') @ item])"

definition normalize_step :: "norm_state \<Rightarrow> string \<Rightarrow> norm_state" where
  "normalize_step st line =
     (let indent = indent_of line;
          content = strip line
      in if is_continuation st content then
           (case current_item st of
              None \<Rightarrow> st
            | Some item \<Rightarrow> st\<lparr>current_item := Some (item @ '' '' @ content)\<rparr>)
         else
           st\<lparr>clean_lines := finalize_item st,
              current_item := Some content,
              current_indent := indent div 4,
              last_line_was_terminated := has_page_number content\<rparr>)"

definition norm_init :: norm_state where
  "norm_init =
     \<lparr>clean_lines = [], current_item = None, current_indent = 0,
      last_line_was_terminated = True\<rparr>"

text \<open>The lines the first loop reads: tabs expanded, blank lines dropped, right-stripped.\<close>

definition raw_lines :: "string \<Rightarrow> string list" where
  "raw_lines raw_outline =
     map rstrip (filter (\<lambda>line. strip line \<noteq> []) (splitlines (expandtabs 4 raw_outline)))"

text \<open>The second loop: the trailing separator and number become one space and the number.\<close>

definition standardize_line :: "string \<Rightarrow> string" where
  "standardize_line line =
     (let indent = indent_of line;
          content = lstrip line;
          content = re_sub page_number_re (\<lambda>m. '' '' @ group m 2) content;
          content = re_sub spaced_number_re (\<lambda>m. '' '' @ group m 1) content
      in replicate indent CHR '' '' @ content)"

definition normalize_outline :: "string \<Rightarrow> string" where
  "normalize_outline raw_outline =
     join ''\<newline>''
       (map standardize_line
          (finalize_item (foldl normalize_step norm_init (raw_lines raw_outline))))"

section \<open>The tree builder\<close>

text \<open>
  The nodes are Python dictionaries that the loop keeps changing after it has linked
  them: a node gets its children while it already is a child of its parent. The model
  keeps the nodes in a store, a list indexed by address, in the order of their
  creation; \<open>children\<close> holds addresses. Address 0 is the synthetic root. The stack
  holds addresses, with the top of the Python list (its last element) at the head.
\<close>

record node =
  title :: string
  level :: int
  page_number :: int
  children :: "nat list"

record parse_state =
  store :: "node list"
  stack :: "nat list"
  last_page_number :: int

definition root_node :: node where
  "root_node = \<lparr>title = ''ROOT'', level = - 1, page_number = 0, children = []\<rparr>"

definition parse_init :: parse_state where
  "parse_init = \<lparr>store = [root_node], stack = [0], last_page_number = 0\<rparr>"

text \<open>
  \<open>while level <= stack[-1]["level"]: stack.pop()\<close>; reading the top of an empty
  stack raises IndexError.
\<close>

fun unwind :: "node list \<Rightarrow> int \<Rightarrow> nat list \<Rightarrow> error + nat list" where
  "unwind st lv [] = Inl IndexError"
| "unwind st lv (tp # below) =
     (if lv \<le> level (st ! tp) then unwind st lv below else Inr (tp # below))"

text \<open>
  \<open>stack[-1]["children"].append(new_item); stack.append(new_item)\<close> after the
  unwinding, with the new value of \<open>last_page_number\<close>.
\<close>

definition add_item :: "parse_state \<Rightarrow> node \<Rightarrow> int \<Rightarrow> error + parse_state" where
  "add_item ps new_item last_page =
     (case unwind (store ps) (level new_item) (stack ps) of
        Inl e \<Rightarrow> Inl e
      | Inr [] \<Rightarrow> Inl IndexError
      | Inr (tp # below) \<Rightarrow>
          let parent = store ps ! tp;
              addr = length (store ps)
          in Inr \<lparr>store = (store ps @ [new_item])
                            [tp := parent\<lparr>children := children parent @ [addr]\<rparr>],
                  stack = addr # tp # below,
                  last_page_number = last_page\<rparr>)"

definition parse_step :: "parse_state \<Rightarrow> string \<Rightarrow> error + parse_state" where
  "parse_step ps line =
     (if strip line = [] then Inr ps
      else
        let indent = indent_of line;
            lv = int (indent div 4);
            content = lstrip line
        in case re_search page_match_re content of
             Some page_match \<Rightarrow>
               (case convert_to_number (group page_match 1) of
                  Inl e \<Rightarrow> Inl e
                | Inr page \<Rightarrow>
                    add_item ps
                      \<lparr>title = strip (take (m_start page_match) content), level = lv,
                       page_number = page, children = []\<rparr> page)
           | None \<Rightarrow>
               add_item ps
                 \<lparr>title = content, level = lv, page_number = last_page_number ps,
                  children = []\<rparr> (last_page_number ps))"

fun parse_lines :: "parse_state \<Rightarrow> string list \<Rightarrow> error + parse_state" where
  "parse_lines ps [] = Inr ps"
| "parse_lines ps (line # rest) =
     (case parse_step ps line of Inl e \<Rightarrow> Inl e | Inr ps' \<Rightarrow> parse_lines ps' rest)"

definition clean_lines_of :: "string \<Rightarrow> string list" where
  "clean_lines_of clean_outline = filter (\<lambda>line. strip line \<noteq> []) (splitlines clean_outline)"

text \<open>
  The result is the store together with \<open>root["children"]\<close>, the addresses of the
  top-level nodes.
\<close>

definition parse_clean_outline :: "string \<Rightarrow> error + node list \<times> nat list" where
  "parse_clean_outline clean_outline =
     (case parse_lines parse_init (clean_lines_of clean_outline) of
        Inl e \<Rightarrow> Inl e
      | Inr ps \<Rightarrow> Inr (store ps, children (store ps ! 0)))"

definition parse_outline :: "string \<Rightarrow> error + node list \<times> nat list" where
  "parse_outline raw_text = parse_clean_outline (normalize_outline raw_text)"

section \<open>The statements of the specification\<close>

subsection \<open>Numeral conversion\<close>

text \<open>The value of a digit string, digit by digit.\<close>

definition decimal_value :: "string \<Rightarrow> int" where
  "decimal_value s = (\<Sum>i<length s. digit_value (s ! i) * 10 ^ (length s - Suc i))"

text \<open>
  The rule for Roman numerals as the specification words it: the letters are scanned
  from right to left, and a letter is subtracted when its value is less than the
  running maximum of the values seen so far in that scan, and added otherwise.
\<close>

definition spec_roman_step :: "int \<times> int \<Rightarrow> char \<Rightarrow> int \<times> int" where
  "spec_roman_step st char =
     (case st of (result, running_max) \<Rightarrow>
        let value = roman_get char
        in (result + (if value < running_max then - value else value), max running_max value))"

definition spec_convert_to_number :: "string \<Rightarrow> int" where
  "spec_convert_to_number page_str =
     (if page_str \<noteq> [] \<and> list_all is_decimal page_str then decimal_value page_str
      else max (fst (foldl spec_roman_step (0, 0) (rev (upper page_str)))) 0)"

text \<open>
  The rule the code follows, by position: a value is subtracted when the value right
  after it is greater, and added otherwise.
\<close>

definition neighbour_signed_sum :: "int list \<Rightarrow> int" where
  "neighbour_signed_sum vs =
     (\<Sum>i<length vs. if Suc i < length vs \<and> vs ! i < vs ! Suc i then - (vs ! i) else vs ! i)"

subsection \<open>Forests\<close>

text \<open>
  Claim C2 as stated: every top-level node has level 0, and every node below has the
  level of its parent plus one.
\<close>

definition levels_exact :: "node list \<Rightarrow> nat list \<Rightarrow> bool" where
  "levels_exact st roots \<longleftrightarrow>
     list_all (\<lambda>c. level (st ! c) = 0) roots \<and>
     list_all (\<lambda>p. list_all (\<lambda>c. level (st ! c) = level (st ! p) + 1) (children (st ! p)))
       [1 ..< length st]"

text \<open>The line carries a page token that the tree builder splits off.\<close>

definition specifies_page :: "string \<Rightarrow> bool" where
  "specifies_page line \<longleftrightarrow> re_search page_match_re (lstrip line) \<noteq> None"

text \<open>The nearest line before line \<open>i\<close> that specifies a page, if there is one.\<close>

fun nearest_specified :: "string list \<Rightarrow> nat \<Rightarrow> nat option" where
  "nearest_specified ls 0 = None"
| "nearest_specified ls (Suc j) =
     (if specifies_page (ls ! j) then Some j else nearest_specified ls j)"

subsection \<open>List markers\<close>

text \<open>
  The list markers of claim C3: digits followed by a period, a capital letter followed
  by a period, a hyphen, an asterisk. Each function gives the text after the marker
  when the content begins with it.
\<close>

definition after_digits_period :: "string \<Rightarrow> string option" where
  "after_digits_period s =
     (case dropWhile is_decimal s of
        [] \<Rightarrow> None
      | c # r \<Rightarrow> if takeWhile is_decimal s \<noteq> [] \<and> c = CHR ''.'' then Some r else None)"

definition after_capital_period :: "string \<Rightarrow> string option" where
  "after_capital_period s =
     (case s of
        c # d # r \<Rightarrow> if is_ascii_capital c \<and> d = CHR ''.'' then Some r else None
      | _ \<Rightarrow> None)"

definition after_hyphen_or_asterisk :: "string \<Rightarrow> string option" where
  "after_hyphen_or_asterisk s =
     (case s of
        [] \<Rightarrow> None
      | c # r \<Rightarrow> if c = CHR ''-'' \<or> c = CHR ''*'' then Some r else None)"

text \<open>Claim C3 as stated: the content begins with a list marker.\<close>

definition begins_with_list_marker :: "string \<Rightarrow> bool" where
  "begins_with_list_marker s \<longleftrightarrow>
     after_digits_period s \<noteq> None \<or> after_capital_period s \<noteq> None \<or>
     after_hyphen_or_asterisk s \<noteq> None"

definition space_first :: "string option \<Rightarrow> bool" where
  "space_first r = (case r of Some (w # _) \<Rightarrow> isspace w | _ \<Rightarrow> False)"

text \<open>The content begins with a list marker and a white space character after it.\<close>

definition begins_with_spaced_list_marker :: "string \<Rightarrow> bool" where
  "begins_with_spaced_list_marker s \<longleftrightarrow>
     space_first (after_digits_period s) \<or> space_first (after_capital_period s) \<or>
     space_first (after_hyphen_or_asterisk s)"

subsection \<open>Beautified lines\<close>

text \<open>
  The condition of claim C4 on a line, read without the white space around it: the
  content has no trailing digit run, or the run has exactly one white space character
  before it and a character that is no white space before that.
\<close>

definition trailing_digits :: "string \<Rightarrow> string" where
  "trailing_digits content = rev (takeWhile is_decimal (rev content))"

definition one_space_before_digits :: "string \<Rightarrow> bool" where
  "one_space_before_digits content =
     (case dropWhile is_decimal (rev content) of
        w # x # _ \<Rightarrow> isspace w \<and> \<not> isspace x
      | _ \<Rightarrow> False)"

definition spec_line_beautified :: "string \<Rightarrow> bool" where
  "spec_line_beautified line \<longleftrightarrow>
     indent_of line mod 4 = 0 \<and>
     (trailing_digits (strip line) = [] \<or> one_space_before_digits (strip line))"

text \<open>Claim C4 as stated: the condition holds for every line that is not blank.\<close>

definition spec_is_beautified :: "string \<Rightarrow> bool" where
  "spec_is_beautified outline \<longleftrightarrow>
     list_all (\<lambda>line. strip line = [] \<or> spec_line_beautified line) (splitlines outline)"

section \<open>Invariants of the tree builder\<close>

text \<open>
  The store starts with the root at level -1, the stack is not empty and ends in the
  root, every address on the stack and in a list of children is in the store, and a
  child lies deeper than its parent.
\<close>

definition store_ok :: "parse_state \<Rightarrow> bool" where
  "store_ok ps \<longleftrightarrow>
     store ps \<noteq> [] \<and> level (store ps ! 0) = - 1 \<and>
     stack ps \<noteq> [] \<and> last (stack ps) = 0 \<and>
     (\<forall>a\<in>set (stack ps). a < length (store ps)) \<and>
     (\<forall>p<length (store ps). \<forall>c\<in>set (children (store ps ! p)).
        c < length (store ps) \<and> level (store ps ! p) < level (store ps ! c))"

text \<open>
  The node that one round of the loop of \<open>parse_clean_outline\<close> makes of a line
  that is not blank, given the last page number; the error when the numeral conversion
  raises.
\<close>

definition line_item :: "int \<Rightarrow> string \<Rightarrow> error + node" where
  "line_item last_page line =
     (let content = lstrip line;
          lv = int (indent_of line div 4)
      in case re_search page_match_re content of
           Some page_match \<Rightarrow>
             (case convert_to_number (group page_match 1) of
                Inl e \<Rightarrow> Inl e
              | Inr page \<Rightarrow>
                  Inr \<lparr>title = strip (take (m_start page_match) content), level = lv,
                       page_number = page, children = []\<rparr>)
         | None \<Rightarrow>
             Inr \<lparr>title = content, level = lv, page_number = last_page, children = []\<rparr>)"

text \<open>
  The page numbers the loop gives to the lines, from the last page number on.
\<close>

fun pages_from :: "int \<Rightarrow> string list \<Rightarrow> int list" where
  "pages_from last_page [] = []"
| "pages_from last_page (line # rest) =
     (case line_item last_page line of
        Inl e \<Rightarrow> []
      | Inr item \<Rightarrow> page_number item # pages_from (page_number item) rest)"

text \<open>The round of the loop on the line raises no error.\<close>

definition line_converts :: "string \<Rightarrow> bool" where
  "line_converts line = (case line_item 0 line of Inl e \<Rightarrow> False | Inr item \<Rightarrow> True)"

section \<open>Runs of digits\<close>

text \<open>The length of the longest run of Arabic digits in a text.\<close>

fun longest_digit_run :: "string \<Rightarrow> nat" where
  "longest_digit_run [] = 0"
| "longest_digit_run (c # cs) =
     max (length (takeWhile is_decimal (c # cs))) (longest_digit_run cs)"

section \<open>Contents of lines\<close>

text \<open>
  A content as the loops see it after \<open>strip\<close> on a line that is not blank: not
  empty, no white space at either end, no line boundary inside.
\<close>

definition tidy :: "string \<Rightarrow> bool" where
  "tidy c \<longleftrightarrow> c \<noteq> [] \<and> \<not> isspace (hd c) \<and> \<not> isspace (last c) \<and> (\<forall>x\<in>set c. \<not> is_linebreak x)"

section \<open>Page-number tokens\<close>

text \<open>
  The separators and tokens of claim C5. A separator is a run of three or more dots,
  dashes and spaces, an opening parenthesis, or one white space character. A numeral
  token that the patterns accept is a run of Arabic digits or a run of Roman capitals;
  the claim as stated also counts a run of the small letters i, v, x, l, c, d, m.
\<close>

definition is_separator :: "string \<Rightarrow> bool" where
  "is_separator sep \<longleftrightarrow>
     (3 \<le> length sep \<and> list_all is_dot_dash_space sep) \<or> sep = ''('' \<or>
     (length sep = 1 \<and> list_all isspace sep)"

definition is_separator_char :: "char \<Rightarrow> bool" where
  "is_separator_char c \<longleftrightarrow> is_dot_dash_space c \<or> c = CHR ''('' \<or> isspace c"

definition is_numeral_char :: "char \<Rightarrow> bool" where
  "is_numeral_char c \<longleftrightarrow> is_decimal c \<or> is_roman_capital c"

definition is_numeral_token :: "string \<Rightarrow> bool" where
  "is_numeral_token tok \<longleftrightarrow>
     tok \<noteq> [] \<and> (list_all is_decimal tok \<or> list_all is_roman_capital tok)"

definition is_small_roman_token :: "string \<Rightarrow> bool" where
  "is_small_roman_token tok \<longleftrightarrow> tok \<noteq> [] \<and> list_all (\<lambda>c. c \<in> set ''ivxlcdm'') tok"

definition is_small_letter :: "char \<Rightarrow> bool" where
  "is_small_letter c \<longleftrightarrow> c \<in> set ''abcdefghijklmnopqrstuvwxyz''"

section \<open>Numeral conversion: proofs\<close>

lemma roman_get_nonneg: "0 \<le> roman_get c"
  by (simp add: roman_get_def roman_map_def)

lemma neighbour_signed_sum_Nil: "neighbour_signed_sum [] = 0"
  by (simp add: neighbour_signed_sum_def)

lemma neighbour_signed_sum_Cons:
  "neighbour_signed_sum (v # vs) =
     (if vs \<noteq> [] \<and> v < hd vs then - v else v) + neighbour_signed_sum vs"
proof -
  have "neighbour_signed_sum (v # vs) =
      (if Suc 0 < length (v # vs) \<and> (v # vs) ! 0 < (v # vs) ! Suc 0 then - ((v # vs) ! 0)
       else (v # vs) ! 0) +
      (\<Sum>i<length vs. if Suc (Suc i) < length (v # vs) \<and> (v # vs) ! Suc i < (v # vs) ! Suc (Suc i)
         then - ((v # vs) ! Suc i) else (v # vs) ! Suc i)"
    unfolding neighbour_signed_sum_def by (simp only: length_Cons sum.lessThan_Suc_shift)
  also have "\<dots> = (if vs \<noteq> [] \<and> v < hd vs then - v else v) + neighbour_signed_sum vs"
    unfolding neighbour_signed_sum_def by (cases vs) (simp_all cong: if_cong)
  finally show ?thesis .
qed

lemma roman_scan:
  "foldl roman_step (0, 0) (rev cs) =
     (neighbour_signed_sum (map roman_get cs), if cs = [] then 0 else roman_get (hd cs))"
proof (induction cs)
  case Nil
  then show ?case by (simp add: neighbour_signed_sum_Nil)
next
  case (Cons c cs)
  have "0 \<le> roman_get c" by (rule roman_get_nonneg)
  with Cons show ?case
    by (cases cs) (auto simp: roman_step_def neighbour_signed_sum_Cons Let_def)
qed

lemma horner_decimal:
  "foldl (\<lambda>acc c. 10 * acc + digit_value c) a s = a * 10 ^ length s + decimal_value s"
proof (induction s arbitrary: a)
  case Nil
  then show ?case by (simp add: decimal_value_def)
next
  case (Cons c s)
  have "decimal_value (c # s) = digit_value c * 10 ^ length s + decimal_value s"
    by (simp add: decimal_value_def sum.lessThan_Suc_shift del: sum.lessThan_Suc)
  with Cons show ?case by (simp add: algebra_simps)
qed

lemma decimal_isdigit: "s \<noteq> [] \<Longrightarrow> list_all is_decimal s \<Longrightarrow> isdigit s"
  by (simp add: isdigit_def list_all_iff)

lemma convert_to_number_long_digits:
  assumes "list_all is_decimal tok" and "int_max_str_digits < length tok"
  shows "convert_to_number tok = Inl ValueError"
proof -
  from assms(2) have "tok \<noteq> []" by auto
  with assms show ?thesis
    using decimal_isdigit [of tok] by (simp add: convert_to_number_def py_int_def)
qed

text \<open>
  Claim C1, amended. The empty text converts to 0. A text of Arabic digits, no more
  of them than the interpreter converts, converts to its decimal value. A text that \<open>str.isdigit\<close> rejects converts to the sum of the
  values of its letters, floored at 0, where a character that is no Roman numeral
  letter counts 0 and a letter is subtracted when the letter right after it has a
  greater value (the one scanned just before it, not the running maximum), and added
  otherwise.
\<close>

theorem convert_to_number_neighbour_rule:
  "(s = [] \<longrightarrow> convert_to_number s = Inr 0) \<and>
   (s \<noteq> [] \<and> list_all is_decimal s \<and> length s \<le> int_max_str_digits \<longrightarrow>
      convert_to_number s = Inr (decimal_value s)) \<and>
   (\<not> isdigit s \<longrightarrow>
      convert_to_number s = Inr (max 0 (neighbour_signed_sum (map roman_get (upper s)))))"
proof (intro conjI impI)
  show "convert_to_number s = Inr 0" if "s = []"
    using that by (simp add: convert_to_number_def)
  show "convert_to_number s = Inr (decimal_value s)"
    if "s \<noteq> [] \<and> list_all is_decimal s \<and> length s \<le> int_max_str_digits"
    using that decimal_isdigit [of s]
    by (simp add: convert_to_number_def py_int_def horner_decimal)
  show "convert_to_number s = Inr (max 0 (neighbour_signed_sum (map roman_get (upper s))))"
    if "\<not> isdigit s"
    using that
    by (simp add: convert_to_number_def roman_scan neighbour_signed_sum_Nil upper_def max.commute)
qed

lemma upper_VIX: "upper ''VIX'' = ''VIX''"
  by (simp add: upper_def upper_char_def)

text \<open>
  Claim C1 as stated fails at the numeral VIX: the scan from the right adds X,
  subtracts I, and adds V, because V is compared with I, the letter scanned before it.
  The rule with the running maximum would subtract V and give 4. It also fails at the
  text of 4301 digits 1, which has no direct integer value: \<open>int\<close> raises
  ValueError on more than 4300 digits.
\<close>

theorem convert_to_number_running_max_counterexample:
  "convert_to_number ''VIX'' = Inr 14 \<and> spec_convert_to_number ''VIX'' = 4 \<and>
   convert_to_number (replicate 4301 (CHR ''1'')) = Inl ValueError"
proof -
  have "convert_to_number ''VIX'' = Inr 14 \<and> spec_convert_to_number ''VIX'' = 4"
    by (simp add: convert_to_number_def spec_convert_to_number_def isdigit_def is_decimal_def
        is_superscript_digit_def upper_VIX roman_step_def spec_roman_step_def roman_get_def
        roman_map_def)
  moreover have "convert_to_number (replicate 4301 (CHR ''1'')) = Inl ValueError"
    by (rule convert_to_number_long_digits)
      (simp_all add: list_all_iff is_decimal_def int_max_str_digits_def)
  ultimately show ?thesis by simp
qed

text \<open>The three cases of claim C1 at the empty text, at 1994 and at MCMXCIV.\<close>

theorem convert_to_number_neighbour_rule_witness:
  "convert_to_number [] = Inr 0 \<and> convert_to_number ''1994'' = Inr 1994 \<and>
   convert_to_number ''MCMXCIV'' = Inr 1994"
proof -
  have u: "upper ''MCMXCIV'' = ''MCMXCIV''"
    by (simp add: upper_def upper_char_def)
  have "convert_to_number [] = Inr 0"
    using convert_to_number_neighbour_rule [of "[]"] by simp
  moreover have "convert_to_number ''1994'' = Inr 1994"
    using convert_to_number_neighbour_rule [of "''1994''"]
    by (simp add: is_decimal_def decimal_value_def digit_value_def int_max_str_digits_def
        lessThan_Suc numeral_eq_Suc)
  moreover have "convert_to_number ''MCMXCIV'' = Inr 1994"
    using convert_to_number_neighbour_rule [of "''MCMXCIV''"]
    by (simp add: u isdigit_def is_decimal_def is_superscript_digit_def neighbour_signed_sum_def
        roman_get_def roman_map_def lessThan_Suc numeral_eq_Suc)
  ultimately show ?thesis by simp
qed


section \<open>Searching\<close>

lemma search_from_SomeD:
  "search_from r pos s = Some m \<Longrightarrow>
     \<exists>k\<le>length s. m_start m = pos + k \<and>
       (\<exists>rest. rmatch r (Map.empty, drop k s) = (m_groups m, m_rest m) # rest) \<and>
       (\<forall>j<k. rmatch r (Map.empty, drop j s) = [])"
proof (induction s arbitrary: pos)
  case Nil
  then show ?case by (auto split: list.splits)
next
  case (Cons c cs)
  show ?case
  proof (cases "rmatch r (Map.empty, c # cs)")
    case Nil
    with Cons.prems have "search_from r (Suc pos) cs = Some m" by simp
    from Cons.IH [OF this] obtain k where k: "k \<le> length cs" "m_start m = Suc pos + k"
      "\<exists>rest. rmatch r (Map.empty, drop k cs) = (m_groups m, m_rest m) # rest"
      "\<forall>j<k. rmatch r (Map.empty, drop j cs) = []" by blast
    have "\<forall>j<Suc k. rmatch r (Map.empty, drop j (c # cs)) = []"
    proof (intro allI impI)
      fix j assume "j < Suc k"
      then show "rmatch r (Map.empty, drop j (c # cs)) = []"
        using Nil k(4) by (cases j) auto
    qed
    with k show ?thesis by (intro exI [of _ "Suc k"]) simp
  next
    case (Cons x xs)
    with Cons.prems show ?thesis by (intro exI [of _ 0]) (auto split: prod.splits)
  qed
qed

lemma search_from_SomeI:
  "k \<le> length s \<Longrightarrow> rmatch r (Map.empty, drop k s) = (g, s') # rest \<Longrightarrow>
   (\<forall>j<k. rmatch r (Map.empty, drop j s) = []) \<Longrightarrow>
   search_from r pos s = Some \<lparr>m_start = pos + k, m_groups = g, m_rest = s'\<rparr>"
proof (induction s arbitrary: pos k)
  case Nil
  then show ?case by simp
next
  case (Cons c cs)
  show ?case
  proof (cases k)
    case 0
    with Cons.prems show ?thesis by simp
  next
    case (Suc k')
    with Cons.prems have here: "rmatch r (Map.empty, c # cs) = []" by auto
    from Suc Cons.prems have "\<forall>j<k'. rmatch r (Map.empty, drop j cs) = []" by auto
    with Suc Cons.prems Cons.IH [of k' "Suc pos"]
    have "search_from r (Suc pos) cs = Some \<lparr>m_start = Suc pos + k', m_groups = g, m_rest = s'\<rparr>"
      by simp
    with here Suc show ?thesis by simp
  qed
qed

lemma search_from_None_iff:
  "search_from r pos s = None \<longleftrightarrow> (\<forall>k\<le>length s. rmatch r (Map.empty, drop k s) = [])"
proof (induction s arbitrary: pos)
  case Nil
  then show ?case by (auto split: list.splits)
next
  case (Cons c cs)
  show ?case
  proof (cases "rmatch r (Map.empty, c # cs)")
    case Nil
    have "(\<forall>k\<le>length (c # cs). rmatch r (Map.empty, drop k (c # cs)) = []) \<longleftrightarrow>
          (\<forall>k\<le>length cs. rmatch r (Map.empty, drop k cs) = [])"
    proof
      assume a: "\<forall>k\<le>length (c # cs). rmatch r (Map.empty, drop k (c # cs)) = []"
      show "\<forall>k\<le>length cs. rmatch r (Map.empty, drop k cs) = []"
      proof (intro allI impI)
        fix k assume "k \<le> length cs"
        with a [rule_format, of "Suc k"] show "rmatch r (Map.empty, drop k cs) = []" by simp
      qed
    next
      assume a: "\<forall>k\<le>length cs. rmatch r (Map.empty, drop k cs) = []"
      show "\<forall>k\<le>length (c # cs). rmatch r (Map.empty, drop k (c # cs)) = []"
      proof (intro allI impI)
        fix k assume "k \<le> length (c # cs)"
        with a Nil show "rmatch r (Map.empty, drop k (c # cs)) = []" by (cases k) auto
      qed
    qed
    with Nil Cons.IH [of "Suc pos"] show ?thesis by simp
  next
    case (Cons x xs)
    then have "\<not> (\<forall>k\<le>length (c # cs). rmatch r (Map.empty, drop k (c # cs)) = [])"
      by (auto intro: exI [of _ 0])
    with Cons show ?thesis by (auto split: prod.splits)
  qed
qed


section \<open>What a match looks like\<close>

lemma take_within_takeWhile: "k \<le> length (takeWhile P s) \<Longrightarrow> list_all P (take k s)"
proof -
  assume k: "k \<le> length (takeWhile P s)"
  have "take k s = take k (takeWhile P s)" using k
    by (induction s arbitrary: k) (auto simp: take_Cons split: nat.splits if_splits)
  then have "set (take k s) \<subseteq> set (takeWhile P s)" by (simp add: set_take_subset)
  then show ?thesis by (auto simp: list_all_iff dest: set_takeWhileD)
qed

lemma rmatch_Rep_mem:
  "(g', s') \<in> set (rmatch (Rep n P) (g, s)) \<longleftrightarrow>
     g' = g \<and> (\<exists>k. n \<le> k \<and> k \<le> length (takeWhile P s) \<and> s' = drop k s)"
  by auto

lemma rmatch_Rep_memD:
  assumes "(g', s') \<in> set (rmatch (Rep n P) (g, s))"
  shows "\<exists>xs. s = xs @ s' \<and> n \<le> length xs \<and> list_all P xs \<and> g' = g"
proof -
  from assms obtain k where k: "n \<le> k" "k \<le> length (takeWhile P s)" "s' = drop k s" "g' = g"
    by auto
  have "k \<le> length s" using k(2) length_takeWhile_le [of P s] by linarith
  with k take_within_takeWhile [of k P s] show ?thesis
    by (intro exI [of _ "take k s"]) simp
qed

lemma rmatch_Grp_memD:
  assumes "(g', s') \<in> set (rmatch (Grp i r) (g, s))"
  shows "\<exists>g''. (g'', s') \<in> set (rmatch r (g, s)) \<and> g' = g''(i \<mapsto> take (length s - length s') s)"
  using assms by auto

lemma numeral_group_memD:
  assumes "(g', s') \<in> set (rmatch (numeral_group i) (g, s))"
  shows "\<exists>tok. tok \<noteq> [] \<and> (list_all is_decimal tok \<or> list_all is_roman_capital tok) \<and>
           g' = g(i \<mapsto> tok) \<and> s = tok @ s'"
proof -
  from rmatch_Grp_memD [OF assms [unfolded numeral_group_def]]
  obtain g'' where g'': "(g'', s') \<in> set (rmatch (Alt (Rep 1 is_decimal) (Rep 1 is_roman_capital)) (g, s))"
    "g' = g''(i \<mapsto> take (length s - length s') s)" by blast
  then consider "(g'', s') \<in> set (rmatch (Rep 1 is_decimal) (g, s))"
    | "(g'', s') \<in> set (rmatch (Rep 1 is_roman_capital) (g, s))" by auto
  then obtain tok where tok: "s = tok @ s'" "1 \<le> length tok"
    "list_all is_decimal tok \<or> list_all is_roman_capital tok" "g'' = g"
  proof cases
    case 1
    from rmatch_Rep_memD [OF 1] that show ?thesis by blast
  next
    case 2
    from rmatch_Rep_memD [OF 2] that show ?thesis by blast
  qed
  with g''(2) show ?thesis by (intro exI [of _ tok]) auto
qed

lemma rmatch_Eol_memD:
  "(g', s') \<in> set (rmatch Eol (g, s)) \<Longrightarrow> g' = g \<and> s' = s \<and> (s = [] \<or> s = [CHR 0x0A])"
  by (auto split: if_splits)

lemma rmatch_Seq_memD:
  "x \<in> set (rmatch (Seq a b) st) \<Longrightarrow> \<exists>y\<in>set (rmatch a st). x \<in> set (rmatch b y)"
  by auto

lemma page_match_re_memD:
  assumes "(g', s') \<in> set (rmatch page_match_re (g, s))"
  shows "\<exists>ws tok. ws \<noteq> [] \<and> list_all isspace ws \<and> tok \<noteq> [] \<and>
           (list_all is_decimal tok \<or> list_all is_roman_capital tok) \<and>
           g' = g(1 \<mapsto> tok) \<and> s = ws @ tok @ s' \<and> (s' = [] \<or> s' = [CHR 0x0A])"
proof -
  from assms obtain g1 s1 where 1: "(g1, s1) \<in> set (rmatch (Rep 1 isspace) (g, s))"
    and r: "(g', s') \<in> set (rmatch (Seq (numeral_group 1) Eol) (g1, s1))"
    unfolding page_match_re_def by (auto dest!: rmatch_Seq_memD)
  from r obtain g2 s2 where 2: "(g2, s2) \<in> set (rmatch (numeral_group 1) (g1, s1))"
    and 3: "(g', s') \<in> set (rmatch Eol (g2, s2))"
    by (auto dest!: rmatch_Seq_memD)
  from rmatch_Rep_memD [OF 1] obtain ws where ws: "s = ws @ s1" "1 \<le> length ws"
    "list_all isspace ws" "g1 = g" by blast
  from numeral_group_memD [OF 2] obtain tok where tok: "tok \<noteq> []"
    "list_all is_decimal tok \<or> list_all is_roman_capital tok" "g2 = g1(1 \<mapsto> tok)" "s1 = tok @ s2"
    by blast
  from rmatch_Eol_memD [OF 3] have e: "g' = g2" "s' = s2" "s2 = [] \<or> s2 = [CHR 0x0A]" by auto
  from ws tok e show ?thesis by (intro exI [of _ ws] exI [of _ tok]) auto
qed

lemma re_search_page_match_SomeD:
  assumes "re_search page_match_re s = Some m"
  shows "\<exists>tok. tok \<noteq> [] \<and> (list_all is_decimal tok \<or> list_all is_roman_capital tok) \<and>
           group m 1 = tok"
proof -
  from search_from_SomeD [OF assms [unfolded re_search_def]]
  obtain k rest where "rmatch page_match_re (Map.empty, drop k s) = (m_groups m, m_rest m) # rest"
    by blast
  then have "(m_groups m, m_rest m) \<in> set (rmatch page_match_re (Map.empty, drop k s))" by simp
  from page_match_re_memD [OF this] show ?thesis by (auto simp: group_def)
qed

lemma convert_to_number_numeral:
  assumes "tok \<noteq> []" and "list_all is_decimal tok \<or> list_all is_roman_capital tok"
    and "list_all is_decimal tok \<longrightarrow> length tok \<le> int_max_str_digits"
  shows "\<exists>n. convert_to_number tok = Inr n"
proof (cases "isdigit tok")
  case True
  from assms obtain c cs where tok: "tok = c # cs" by (cases tok) auto
  have "\<not> is_roman_capital c" using True tok
    by (auto simp: isdigit_def is_roman_capital_def is_decimal_def is_superscript_digit_def)
  with assms(2) tok have "list_all is_decimal tok" by auto
  with True assms(1,3) show ?thesis by (simp add: convert_to_number_def py_int_def)
next
  case False
  with assms(1) show ?thesis by (simp add: convert_to_number_def)
qed


section \<open>The tree builder: proofs\<close>

lemma parse_step_line_item:
  "strip line \<noteq> [] \<Longrightarrow>
   parse_step ps line =
     (case line_item (last_page_number ps) line of
        Inl e \<Rightarrow> Inl e
      | Inr item \<Rightarrow> add_item ps item (page_number item))"
  by (simp add: parse_step_def line_item_def Let_def split: option.splits sum.splits)

lemma line_converts_iff: "line_converts line \<longleftrightarrow> (\<exists>item. line_item lp line = Inr item)"
  by (auto simp: line_converts_def line_item_def Let_def split: option.splits sum.splits)

lemma line_item_total: "line_converts line \<Longrightarrow> \<exists>item. line_item lp line = Inr item"
  by (simp add: line_converts_iff [of line lp])

lemma line_item_shape:
  "line_item lp line = Inr item \<Longrightarrow>
     level item = int (indent_of line div 4) \<and> children item = [] \<and>
     (\<not> specifies_page line \<longrightarrow> page_number item = lp)"
  by (auto simp: line_item_def specifies_page_def Let_def split: option.splits sum.splits)

lemma line_item_specified:
  "specifies_page line \<Longrightarrow> line_item lp line = line_item lp' line"
  by (auto simp: line_item_def specifies_page_def Let_def split: option.splits sum.splits)

lemma unwind_ok:
  "stk \<noteq> [] \<Longrightarrow> level (st ! last stk) < lv \<Longrightarrow>
     \<exists>tp below. unwind st lv stk = Inr (tp # below) \<and> level (st ! tp) < lv \<and>
       set (tp # below) \<subseteq> set stk \<and> last (tp # below) = last stk"
proof (induction stk)
  case Nil
  then show ?case by simp
next
  case (Cons a stk)
  show ?case
  proof (cases "lv \<le> level (st ! a)")
    case False
    then have "unwind st lv (a # stk) = Inr (a # stk)" by simp
    with False show ?thesis by (intro exI [of _ a] exI [of _ stk]) simp
  next
    case True
    with Cons.prems have ne: "stk \<noteq> []" by (cases stk) auto
    with Cons.prems have "level (st ! last stk) < lv" by simp
    from Cons.IH [OF ne this] obtain tp below where
      b: "unwind st lv stk = Inr (tp # below)" "level (st ! tp) < lv"
         "set (tp # below) \<subseteq> set stk" "last (tp # below) = last stk" by blast
    from True b(1) have "unwind st lv (a # stk) = Inr (tp # below)" by simp
    with b ne show ?thesis by (intro exI [of _ tp] exI [of _ below]) auto
  qed
qed

lemma add_item_ok:
  assumes ok: "store_ok ps" and lv: "0 \<le> level item" and ch: "children item = []"
  shows "\<exists>ps'. add_item ps item lp = Inr ps' \<and> store_ok ps' \<and>
           last_page_number ps' = lp \<and>
           map level (store ps') = map level (store ps) @ [level item] \<and>
           map page_number (store ps') = map page_number (store ps) @ [page_number item] \<and>
           map title (store ps') = map title (store ps) @ [title item]"
proof -
  let ?st = "store ps"
  from ok have ne: "stack ps \<noteq> []" and root: "level (?st ! last (stack ps)) < level item"
    using lv by (auto simp: store_ok_def)
  from unwind_ok [OF ne root] obtain tp below where
    u: "unwind ?st (level item) (stack ps) = Inr (tp # below)" and
    tpl: "level (?st ! tp) < level item" and
    sub: "set (tp # below) \<subseteq> set (stack ps)" and
    bot: "last (tp # below) = last (stack ps)" by blast
  from sub ok have tp: "tp < length ?st" and below: "\<forall>a\<in>set below. a < length ?st"
    by (auto simp: store_ok_def)
  define parent where "parent = ?st ! tp"
  define st' where "st' = (?st @ [item])[tp := parent\<lparr>children := children parent @ [length ?st]\<rparr>]"
  define ps' where "ps' = \<lparr>store = st', stack = length ?st # tp # below, last_page_number = lp\<rparr>"
  have res: "add_item ps item lp = Inr ps'"
    using u by (simp add: add_item_def ps'_def st'_def parent_def Let_def)
  have len: "length st' = Suc (length ?st)" by (simp add: st'_def)
  have nth_old: "level (st' ! a) = level (?st ! a) \<and> page_number (st' ! a) = page_number (?st ! a)
      \<and> title (st' ! a) = title (?st ! a)
      \<and> children (st' ! a) = (if a = tp then children (?st ! a) @ [length ?st] else children (?st ! a))"
    if "a < length ?st" for a
    using that tp by (cases "a = tp") (simp_all add: st'_def parent_def nth_append)
  have nth_new: "st' ! length ?st = item"
    using tp by (simp add: st'_def nth_append)
  have lev: "map level st' = map level ?st @ [level item]"
    using nth_old nth_new len
    by (intro nth_equalityI) (auto simp: nth_append less_Suc_eq)
  have pag: "map page_number st' = map page_number ?st @ [page_number item]"
    using nth_old nth_new len
    by (intro nth_equalityI) (auto simp: nth_append less_Suc_eq)
  have tit: "map title st' = map title ?st @ [title item]"
    using nth_old nth_new len
    by (intro nth_equalityI) (auto simp: nth_append less_Suc_eq)
  have pairs: "c < length st' \<and> level (st' ! p) < level (st' ! c)"
    if p: "p < length st'" and c: "c \<in> set (children (st' ! p))" for p c
  proof (cases "p < length ?st")
    case False
    with p len have "p = length ?st" by simp
    with c nth_new ch show ?thesis by simp
  next
    case True
    show ?thesis
    proof (cases "c = length ?st")
      case cnew: True
      have "p = tp"
      proof (rule ccontr)
        assume "p \<noteq> tp"
        with c nth_old [OF True] have "c \<in> set (children (?st ! p))" by simp
        with ok True have "c < length ?st" by (auto simp: store_ok_def)
        with cnew show False by simp
      qed
      with cnew tpl nth_old [OF tp] nth_new len show ?thesis by simp
    next
      case cold: False
      with c nth_old [OF True] have "c \<in> set (children (?st ! p))" by (auto split: if_splits)
      with ok True have "c < length ?st" "level (?st ! p) < level (?st ! c)"
        by (auto simp: store_ok_def)
      with nth_old [OF True] nth_old [of c] len show ?thesis by simp
    qed
  qed
  have "store_ok ps'"
    unfolding store_ok_def
  proof (intro conjI)
    show "store ps' \<noteq> []" using len by (auto simp: ps'_def)
    show "level (store ps' ! 0) = - 1"
      using ok nth_old [of 0] by (auto simp: ps'_def store_ok_def)
    show "stack ps' \<noteq> []" by (simp add: ps'_def)
    show "last (stack ps') = 0" using bot ok by (simp add: ps'_def store_ok_def)
    show "\<forall>a\<in>set (stack ps'). a < length (store ps')"
      using tp below len by (auto simp: ps'_def)
    show "\<forall>p<length (store ps'). \<forall>c\<in>set (children (store ps' ! p)).
        c < length (store ps') \<and> level (store ps' ! p) < level (store ps' ! c)"
      using pairs by (simp add: ps'_def)
  qed
  with res lev pag tit show ?thesis by (intro exI [of _ ps']) (simp add: ps'_def)
qed


lemma parse_lines_ok:
  assumes "store_ok ps" and "\<forall>l\<in>set ls. strip l \<noteq> []" and "\<forall>l\<in>set ls. line_converts l"
  shows "\<exists>ps'. parse_lines ps ls = Inr ps' \<and> store_ok ps' \<and>
           map level (store ps') = map level (store ps) @ map (\<lambda>l. int (indent_of l div 4)) ls \<and>
           map page_number (store ps') =
             map page_number (store ps) @ pages_from (last_page_number ps) ls"
  using assms
proof (induction ls arbitrary: ps)
  case Nil
  then show ?case by simp
next
  case (Cons l ls)
  from Cons.prems(3) have "line_converts l" by simp
  from line_item_total [OF this]
  obtain item where item: "line_item (last_page_number ps) l = Inr item"
    by blast
  from line_item_shape [OF item] have sh: "level item = int (indent_of l div 4)"
    "children item = []" by auto
  then have "0 \<le> level item" by simp
  from add_item_ok [OF Cons.prems(1) this sh(2), of "page_number item"]
  obtain ps1 where ps1: "add_item ps item (page_number item) = Inr ps1" "store_ok ps1"
    "last_page_number ps1 = page_number item"
    "map level (store ps1) = map level (store ps) @ [level item]"
    "map page_number (store ps1) = map page_number (store ps) @ [page_number item]"
    by blast
  from Cons.prems(2) have "strip l \<noteq> []" by simp
  with item ps1(1) have step: "parse_step ps l = Inr ps1"
    by (simp add: parse_step_line_item)
  from Cons.prems(2,3) have "\<forall>l\<in>set ls. strip l \<noteq> []" "\<forall>l\<in>set ls. line_converts l"
    by simp_all
  from Cons.IH [OF ps1(2) this] obtain ps' where ps': "parse_lines ps1 ls = Inr ps'"
    "store_ok ps'"
    "map level (store ps') = map level (store ps1) @ map (\<lambda>l. int (indent_of l div 4)) ls"
    "map page_number (store ps') = map page_number (store ps1) @ pages_from (last_page_number ps1) ls"
    by blast
  from step ps'(1) have "parse_lines ps (l # ls) = Inr ps'" by simp
  moreover from ps'(3) ps1(4) sh(1)
  have "map level (store ps') =
      map level (store ps) @ map (\<lambda>l. int (indent_of l div 4)) (l # ls)" by simp
  moreover from ps'(4) ps1(3,5) item
  have "map page_number (store ps') =
      map page_number (store ps) @ pages_from (last_page_number ps) (l # ls)" by simp
  ultimately show ?case using ps'(2) by blast
qed

lemma store_ok_init: "store_ok parse_init"
  by (simp add: store_ok_def parse_init_def root_node_def)

lemma clean_lines_of_not_blank: "\<forall>l\<in>set (clean_lines_of t). strip l \<noteq> []"
  by (simp add: clean_lines_of_def)

lemma parse_lines_converts:
  assumes "parse_lines ps ls = Inr ps'" and "\<forall>l\<in>set ls. strip l \<noteq> []"
  shows "\<forall>l\<in>set ls. line_converts l"
  using assms
proof (induction ls arbitrary: ps)
  case Nil
  then show ?case by simp
next
  case (Cons l ls)
  from Cons.prems(1) obtain ps1 where step: "parse_step ps l = Inr ps1"
    and rest: "parse_lines ps1 ls = Inr ps'"
    by (auto split: sum.splits)
  from Cons.prems(2) have "strip l \<noteq> []" by simp
  from step parse_step_line_item [OF this, of ps]
  obtain item where "line_item (last_page_number ps) l = Inr item"
    by (auto split: sum.splits)
  then have "line_converts l" by (auto simp: line_converts_iff [of l "last_page_number ps"])
  moreover from Cons.prems(2) have "\<forall>l\<in>set ls. strip l \<noteq> []" by simp
  from Cons.IH [OF rest this] have "\<forall>l\<in>set ls. line_converts l" .
  ultimately show ?case by simp
qed

lemma parse_clean_outline_converts:
  assumes "parse_clean_outline t = Inr (st, roots)"
  shows "\<forall>l\<in>set (clean_lines_of t). line_converts l"
proof -
  from assms obtain ps where "parse_lines parse_init (clean_lines_of t) = Inr ps"
    by (auto simp: parse_clean_outline_def split: sum.splits)
  from parse_lines_converts [OF this clean_lines_of_not_blank] show ?thesis .
qed

lemma parse_clean_outline_ok:
  assumes "\<forall>l\<in>set (clean_lines_of t). line_converts l"
  shows "\<exists>ps. parse_lines parse_init (clean_lines_of t) = Inr ps \<and> store_ok ps \<and>
     parse_clean_outline t = Inr (store ps, children (store ps ! 0)) \<and>
     map level (store ps) = - 1 # map (\<lambda>l. int (indent_of l div 4)) (clean_lines_of t) \<and>
     map page_number (store ps) = 0 # pages_from 0 (clean_lines_of t)"
proof -
  from parse_lines_ok [OF store_ok_init clean_lines_of_not_blank assms]
  obtain ps where ps: "parse_lines parse_init (clean_lines_of t) = Inr ps" "store_ok ps"
    "map level (store ps) =
       map level (store parse_init) @ map (\<lambda>l. int (indent_of l div 4)) (clean_lines_of t)"
    "map page_number (store ps) =
       map page_number (store parse_init) @ pages_from (last_page_number parse_init) (clean_lines_of t)"
    by blast
  then show ?thesis
    by (intro exI [of _ ps]) (simp add: parse_clean_outline_def parse_init_def root_node_def)
qed

lemma length_pages_from:
  "\<forall>l\<in>set ls. line_converts l \<Longrightarrow> length (pages_from lp ls) = length ls"
proof (induction ls arbitrary: lp)
  case Nil
  then show ?case by simp
next
  case (Cons l ls)
  from Cons.prems have "line_converts l" by simp
  from line_item_total [OF this] obtain item where "line_item lp l = Inr item" by blast
  with Cons show ?case by simp
qed

lemma pages_from_repeats:
  "\<forall>l\<in>set ls. line_converts l \<Longrightarrow> i < length ls \<Longrightarrow> \<not> specifies_page (ls ! i) \<Longrightarrow>
     pages_from lp ls ! i = (case i of 0 \<Rightarrow> lp | Suc k \<Rightarrow> pages_from lp ls ! k)"
proof (induction ls arbitrary: lp i)
  case Nil
  then show ?case by simp
next
  case (Cons l ls)
  from Cons.prems(1) have "line_converts l" and conv: "\<forall>l\<in>set ls. line_converts l" by simp_all
  from line_item_total [OF this(1)] obtain item where item: "line_item lp l = Inr item" by blast
  show ?case
  proof (cases i)
    case 0
    with Cons.prems item line_item_shape [OF item] show ?thesis by simp
  next
    case (Suc i')
    with Cons.prems have "i' < length ls" "\<not> specifies_page (ls ! i')" by simp_all
    from Cons.IH [OF conv this, of "page_number item"] item Suc show ?thesis
      by (simp split: nat.splits)
  qed
qed

lemma pages_from_nearest:
  "\<forall>l\<in>set ls. line_converts l \<Longrightarrow> i \<le> length ls \<Longrightarrow>
     (case i of 0 \<Rightarrow> lp | Suc k \<Rightarrow> pages_from lp ls ! k) =
     (case nearest_specified ls i of None \<Rightarrow> lp | Some j \<Rightarrow> pages_from lp ls ! j)"
proof (induction i)
  case 0
  then show ?case by simp
next
  case (Suc i)
  show ?case
  proof (cases "specifies_page (ls ! i)")
    case True
    then show ?thesis by simp
  next
    case False
    from Suc.prems have "i < length ls" by simp
    from pages_from_repeats [OF Suc.prems(1) this False, of lp] Suc.IH Suc.prems False
    show ?thesis by simp
  qed
qed

lemma nearest_specified_less: "nearest_specified ls i = Some j \<Longrightarrow> j < i \<and> specifies_page (ls ! j)"
  by (induction i) (auto split: if_splits)


lemma parsed_store_ok:
  assumes "parse_outline t = Inr (st, roots) \<or> parse_clean_outline t = Inr (st, roots)"
  shows "\<exists>ps. store_ok ps \<and> st = store ps \<and> roots = children (store ps ! 0)"
proof -
  from assms obtain t' where t': "parse_clean_outline t' = Inr (st, roots)"
    by (auto simp: parse_outline_def)
  from parse_clean_outline_ok [OF parse_clean_outline_converts [OF t']]
  obtain ps where ps: "store_ok ps"
    "parse_clean_outline t' = Inr (store ps, children (store ps ! 0))" by blast
  from ps(2) t' have "st = store ps" "roots = children (store ps ! 0)" by simp_all
  with ps(1) show ?thesis by blast
qed

text \<open>
  Claim C9. In the store that \<open>parse_clean_outline\<close> (and hence \<open>parse_outline\<close>)
  returns, every child has a level strictly greater than the level of its parent: no
  node's level is less than or equal to its parent's.
\<close>

theorem child_level_above_parent:
  assumes "parse_outline t = Inr (st, roots) \<or> parse_clean_outline t = Inr (st, roots)"
    and "p < length st" and "c \<in> set (children (st ! p))"
  shows "level (st ! p) < level (st ! c)"
proof -
  from parsed_store_ok [OF assms(1)] obtain ps where "store_ok ps" "st = store ps" by blast
  with assms(2,3) show ?thesis by (simp add: store_ok_def)
qed

text \<open>
  Claim C9 on an outline of a chapter with a section two steps deeper: the section at
  address 2 is a child of the chapter at address 1 and lies deeper.
\<close>

theorem child_level_above_parent_witness:
  "parse_outline ''Chapter 2\<newline>        Section 3'' =
     Inr ([\<lparr>title = ''ROOT'', level = - 1, page_number = 0, children = [1]\<rparr>,
           \<lparr>title = ''Chapter'', level = 0, page_number = 2, children = [2]\<rparr>,
           \<lparr>title = ''Section'', level = 2, page_number = 3, children = []\<rparr>], [1]) \<and>
   level \<lparr>title = ''Chapter'', level = 0, page_number = 2, children = [2]\<rparr>
     < level \<lparr>title = ''Section'', level = 2, page_number = 3, children = []\<rparr>"
proof -
  have run: "parse_outline ''Chapter 2\<newline>        Section 3'' =
     Inr ([\<lparr>title = ''ROOT'', level = - 1, page_number = 0, children = [1]\<rparr>,
           \<lparr>title = ''Chapter'', level = 0, page_number = 2, children = [2]\<rparr>,
           \<lparr>title = ''Section'', level = 2, page_number = 3, children = []\<rparr>], [1])"
    by code_simp
  from child_level_above_parent [OF disjI1 [OF run], of 1 2] run show ?thesis by simp
qed

text \<open>
  Claim C2 as stated fails on the same kind of outline: the first entry is indented by
  one step, so a top-level node has level 1, and the section is indented two steps
  below its chapter, so its level is its parent's plus two.
\<close>

theorem levels_exact_counterexample:
  "parse_outline ''    Preface 1\<newline>Chapter 2\<newline>        Section 3'' =
     Inr ([\<lparr>title = ''ROOT'', level = - 1, page_number = 0, children = [1, 2]\<rparr>,
           \<lparr>title = ''Preface'', level = 1, page_number = 1, children = []\<rparr>,
           \<lparr>title = ''Chapter'', level = 0, page_number = 2, children = [3]\<rparr>,
           \<lparr>title = ''Section'', level = 2, page_number = 3, children = []\<rparr>], [1, 2]) \<and>
   \<not> levels_exact
      [\<lparr>title = ''ROOT'', level = - 1, page_number = 0, children = [1, 2]\<rparr>,
       \<lparr>title = ''Preface'', level = 1, page_number = 1, children = []\<rparr>,
       \<lparr>title = ''Chapter'', level = 0, page_number = 2, children = [3]\<rparr>,
       \<lparr>title = ''Section'', level = 2, page_number = 3, children = []\<rparr>] [1, 2]"
  by code_simp

text \<open>
  Claim C2, amended. In the store that \<open>parse_outline\<close> or \<open>parse_clean_outline\<close>
  returns, every top-level node has a level of at least 0, and every child has a level
  of at least its parent's level plus one.
\<close>

theorem levels_at_least_parent_plus_one:
  assumes "parse_outline t = Inr (st, roots) \<or> parse_clean_outline t = Inr (st, roots)"
  shows "(\<forall>c\<in>set roots. 0 \<le> level (st ! c)) \<and>
         (\<forall>p<length st. \<forall>c\<in>set (children (st ! p)). level (st ! p) + 1 \<le> level (st ! c))"
proof -
  from parsed_store_ok [OF assms] obtain ps where ps: "store_ok ps" "st = store ps"
    "roots = children (store ps ! 0)" by blast
  from ps(1) have pairs: "\<forall>p<length (store ps). \<forall>c\<in>set (children (store ps ! p)).
      level (store ps ! p) < level (store ps ! c)"
    and root: "0 < length (store ps)" "level (store ps ! 0) = - 1"
    by (auto simp: store_ok_def)
  from pairs root have "\<forall>c\<in>set (children (store ps ! 0)). - 1 < level (store ps ! c)"
    by fastforce
  with pairs ps(2,3) show ?thesis by fastforce
qed

text \<open>Claim C2, amended, on the outline of its counterexample.\<close>

theorem levels_at_least_parent_plus_one_witness:
  "parse_outline ''    Preface 1\<newline>Chapter 2\<newline>        Section 3'' =
     Inr ([\<lparr>title = ''ROOT'', level = - 1, page_number = 0, children = [1, 2]\<rparr>,
           \<lparr>title = ''Preface'', level = 1, page_number = 1, children = []\<rparr>,
           \<lparr>title = ''Chapter'', level = 0, page_number = 2, children = [3]\<rparr>,
           \<lparr>title = ''Section'', level = 2, page_number = 3, children = []\<rparr>], [1, 2]) \<and>
   (0::int) \<le> 1 \<and> (0::int) \<le> 0 \<and> (0::int) + 1 \<le> 2"
proof -
  have run: "parse_outline ''    Preface 1\<newline>Chapter 2\<newline>        Section 3'' =
     Inr ([\<lparr>title = ''ROOT'', level = - 1, page_number = 0, children = [1, 2]\<rparr>,
           \<lparr>title = ''Preface'', level = 1, page_number = 1, children = []\<rparr>,
           \<lparr>title = ''Chapter'', level = 0, page_number = 2, children = [3]\<rparr>,
           \<lparr>title = ''Section'', level = 2, page_number = 3, children = []\<rparr>], [1, 2])"
    by code_simp
  from levels_at_least_parent_plus_one [OF disjI1 [OF run]] run show ?thesis by simp
qed

text \<open>
  Claim C7. The entry of line \<open>i\<close> of the lines that \<open>parse_clean_outline\<close> reads is
  the node at address \<open>i + 1\<close>. When the line carries no page token, its node has the
  page number of the node of the nearest line before it that carries one, and 0 when
  no line before it does. The order is the order of the lines, whatever the tree.
  (\<open>parse_outline\<close> is \<open>parse_clean_outline\<close> on the normalized text.)
\<close>

theorem page_inherited_from_nearest:
  assumes "parse_clean_outline clean = Inr (st, roots)"
    and "i < length (clean_lines_of clean)"
    and "\<not> specifies_page (clean_lines_of clean ! i)"
  shows "length st = Suc (length (clean_lines_of clean)) \<and>
         level (st ! Suc i) = int (indent_of (clean_lines_of clean ! i) div 4) \<and>
         page_number (st ! Suc i) =
           (case nearest_specified (clean_lines_of clean) i of
              None \<Rightarrow> 0
            | Some j \<Rightarrow> page_number (st ! Suc j))"
proof -
  let ?ls = "clean_lines_of clean"
  from parse_clean_outline_converts [OF assms(1)]
  have conv: "\<forall>l\<in>set ?ls. line_converts l" .
  from parse_clean_outline_ok [OF conv] obtain ps where
    all: "parse_lines parse_init ?ls = Inr ps \<and> store_ok ps \<and>
      parse_clean_outline clean = Inr (store ps, children (store ps ! 0)) \<and>
      map level (store ps) = - 1 # map (\<lambda>l. int (indent_of l div 4)) ?ls \<and>
      map page_number (store ps) = 0 # pages_from 0 ?ls" ..
  then have ps: "parse_clean_outline clean = Inr (store ps, children (store ps ! 0))"
      "map level (store ps) = - 1 # map (\<lambda>l. int (indent_of l div 4)) ?ls"
      "map page_number (store ps) = 0 # pages_from 0 ?ls" by simp_all
  from ps(1) assms(1) have st: "st = store ps" by simp
  from ps(2,3) st have
    lv: "map level st = - 1 # map (\<lambda>l. int (indent_of l div 4)) ?ls" and
    pg: "map page_number st = 0 # pages_from 0 ?ls" by simp_all
  from lv have len: "length st = Suc (length ?ls)"
    by (metis length_Cons length_map)
  have nth_pg: "page_number (st ! Suc k) = pages_from 0 ?ls ! k" if "k < length ?ls" for k
  proof -
    from that len have "map page_number st ! Suc k = page_number (st ! Suc k)" by simp
    with pg show ?thesis by simp
  qed
  have nth_lv: "level (st ! Suc i) = int (indent_of (?ls ! i) div 4)"
  proof -
    from assms(2) len have "map level st ! Suc i = level (st ! Suc i)" by simp
    with lv assms(2) show ?thesis by simp
  qed
  have "pages_from 0 ?ls ! i = (case i of 0 \<Rightarrow> 0 | Suc k \<Rightarrow> pages_from 0 ?ls ! k)"
    by (rule pages_from_repeats [OF conv assms(2,3)])
  also have "\<dots> = (case nearest_specified ?ls i of None \<Rightarrow> 0 | Some j \<Rightarrow> pages_from 0 ?ls ! j)"
    using assms(2) conv by (intro pages_from_nearest) simp_all
  also have "\<dots> = (case nearest_specified ?ls i of None \<Rightarrow> 0 | Some j \<Rightarrow> page_number (st ! Suc j))"
  proof (cases "nearest_specified ?ls i")
    case None
    then show ?thesis by simp
  next
    case (Some j)
    with nearest_specified_less [OF Some] assms(2) nth_pg [of j] show ?thesis by simp
  qed
  finally show ?thesis using nth_pg [OF assms(2)] nth_lv len by simp
qed

text \<open>
  Claim C7 on three entries: the third line has no page token and is the child of the
  second, and takes page 5 from the second, which is the nearest line with a token.
\<close>

theorem page_inherited_from_nearest_witness:
  "parse_clean_outline ''A 4\<newline>B 5\<newline>    C'' =
     Inr ([\<lparr>title = ''ROOT'', level = - 1, page_number = 0, children = [1, 2]\<rparr>,
           \<lparr>title = ''A'', level = 0, page_number = 4, children = []\<rparr>,
           \<lparr>title = ''B'', level = 0, page_number = 5, children = [3]\<rparr>,
           \<lparr>title = ''C'', level = 1, page_number = 5, children = []\<rparr>], [1, 2]) \<and>
   clean_lines_of ''A 4\<newline>B 5\<newline>    C'' = [''A 4'', ''B 5'', ''    C''] \<and>
   \<not> specifies_page ''    C'' \<and>
   nearest_specified [''A 4'', ''B 5'', ''    C''] 2 = Some 1"
proof -
  have run: "parse_clean_outline ''A 4\<newline>B 5\<newline>    C'' =
     Inr ([\<lparr>title = ''ROOT'', level = - 1, page_number = 0, children = [1, 2]\<rparr>,
           \<lparr>title = ''A'', level = 0, page_number = 4, children = []\<rparr>,
           \<lparr>title = ''B'', level = 0, page_number = 5, children = [3]\<rparr>,
           \<lparr>title = ''C'', level = 1, page_number = 5, children = []\<rparr>], [1, 2])"
    by code_simp
  have ls: "clean_lines_of ''A 4\<newline>B 5\<newline>    C'' = [''A 4'', ''B 5'', ''    C'']"
    by code_simp
  have no: "\<not> specifies_page ''    C''" by code_simp
  have near: "nearest_specified [''A 4'', ''B 5'', ''    C''] 2 = Some 1" by code_simp
  have "\<not> specifies_page (clean_lines_of ''A 4\<newline>B 5\<newline>    C'' ! 2)"
    using no by (simp add: ls)
  from page_inherited_from_nearest [OF run _ this] run ls no near show ?thesis by simp
qed


section \<open>The beautifier: proofs\<close>

text \<open>
  Claim C10. \<open>is_beautified\<close> is no complete test for the texts that
  \<open>beautify_outline\<close> leaves as they are: the one-line text 42 is returned unchanged
  by \<open>beautify_outline\<close>, yet \<open>is_beautified\<close> is false for it, because its digit run
  has no character and space before it.
\<close>

theorem is_beautified_incomplete:
  "beautify_outline ''42'' = ''42'' \<and> \<not> is_beautified ''42''"
  by code_simp


section \<open>Repetition followed by a pattern that cannot start inside the run\<close>

lemma drop_within_takeWhile:
  assumes "k < length (takeWhile P s)"
  shows "\<exists>c cs. drop k s = c # cs \<and> P c"
proof -
  from assms have ks: "k < length s" using length_takeWhile_le [of P s] by linarith
  then have d: "drop k s = s ! k # drop (Suc k) s" by (simp add: Cons_nth_drop_Suc)
  from assms have "takeWhile P s ! k = s ! k" by (rule takeWhile_nth)
  moreover from assms have "takeWhile P s ! k \<in> set (takeWhile P s)" by simp
  ultimately have "P (s ! k)" by (auto dest: set_takeWhileD)
  with d show ?thesis by blast
qed

lemma rmatch_Rep_Seq:
  assumes "\<And>k. k < length (takeWhile P s) \<Longrightarrow> rmatch b (g, drop k s) = []"
  shows "rmatch (Seq (Rep n P) b) (g, s) =
           (if n \<le> length (takeWhile P s) then rmatch b (g, dropWhile P s) else [])"
proof (cases "n \<le> length (takeWhile P s)")
  case False
  then show ?thesis by simp
next
  case True
  let ?m = "length (takeWhile P s)"
  have "rmatch (Seq (Rep n P) b) (g, s) =
      concat (map (\<lambda>k. rmatch b (g, drop k s)) (rev [n ..< Suc ?m]))"
    by (simp add: comp_def)
  also from True have "rev [n ..< Suc ?m] = ?m # rev [n ..< ?m]" by simp
  also have "concat (map (\<lambda>k. rmatch b (g, drop k s)) (?m # rev [n ..< ?m])) =
      rmatch b (g, drop ?m s) @ concat (map (\<lambda>k. rmatch b (g, drop k s)) (rev [n ..< ?m]))"
    by simp
  also have "map (\<lambda>k. rmatch b (g, drop k s)) (rev [n ..< ?m]) = map (\<lambda>k. []) (rev [n ..< ?m])"
    using assms by (intro map_cong) auto
  also have "concat (map (\<lambda>k. []) (rev [n ..< ?m])) = ([] :: (groups \<times> string) list)"
    by simp
  finally show ?thesis using True by (simp add: dropWhile_eq_drop)
qed


section \<open>The normalizer: proofs\<close>

declare rmatch.simps [simp del]

lemma re_match_None_iff: "re_match r s = None \<longleftrightarrow> rmatch r (Map.empty, s) = []"
  by (simp add: re_match_def split: list.splits prod.splits)

lemma rmatch_digits_period:
  "rmatch (Seq (Rep 1 is_decimal) (Cls (\<lambda>c. c = CHR ''.''))) (g, s) =
     (case after_digits_period s of None \<Rightarrow> [] | Some r \<Rightarrow> [(g, r)])"
proof -
  have "rmatch (Cls (\<lambda>c. c = CHR ''.'')) (g, drop k s) = []"
    if "k < length (takeWhile is_decimal s)" for k
  proof -
    from drop_within_takeWhile [OF that] obtain c cs where "drop k s = c # cs" "is_decimal c"
      by blast
    then show ?thesis by (auto simp: is_decimal_def rmatch.simps)
  qed
  then have "rmatch (Seq (Rep 1 is_decimal) (Cls (\<lambda>c. c = CHR ''.''))) (g, s) =
      (if 1 \<le> length (takeWhile is_decimal s)
       then rmatch (Cls (\<lambda>c. c = CHR ''.'')) (g, dropWhile is_decimal s) else [])"
    by (rule rmatch_Rep_Seq)
  also have "\<dots> = (case after_digits_period s of None \<Rightarrow> [] | Some r \<Rightarrow> [(g, r)])"
  proof (cases "dropWhile is_decimal s")
    case Nil
    then show ?thesis unfolding after_digits_period_def
      by (simp add: rmatch.simps del: dropWhile_eq_Nil_conv)
  next
    case (Cons c r)
    then show ?thesis unfolding after_digits_period_def
      by (cases "takeWhile is_decimal s")
        (simp_all add: rmatch.simps del: dropWhile_eq_Nil_conv takeWhile_eq_Nil_iff)
  qed
  finally show ?thesis .
qed

lemma rmatch_capital_period:
  "rmatch (Seq (Cls is_ascii_capital) (Cls (\<lambda>c. c = CHR ''.''))) (g, s) =
     (case after_capital_period s of None \<Rightarrow> [] | Some r \<Rightarrow> [(g, r)])"
  by (simp add: after_capital_period_def rmatch.simps split: list.splits)

lemma rmatch_hyphen_or_asterisk:
  "rmatch (Alt (Cls (\<lambda>c. c = CHR ''-'')) (Cls (\<lambda>c. c = CHR ''*''))) (g, s) =
     (case after_hyphen_or_asterisk s of None \<Rightarrow> [] | Some r \<Rightarrow> [(g, r)])"
  by (simp add: after_hyphen_or_asterisk_def rmatch.simps split: list.splits)

lemma rmatch_space_first:
  "rmatch (Cls isspace) (g, r) \<noteq> [] \<longleftrightarrow> space_first (Some r)"
  by (simp add: space_first_def rmatch.simps split: list.splits)


lemma alt_marker:
  "rmatch (Alt (Seq (Rep 1 is_decimal) (Cls (\<lambda>c. c = CHR ''.'')))
            (Alt (Seq (Cls is_ascii_capital) (Cls (\<lambda>c. c = CHR ''.'')))
              (Alt (Cls (\<lambda>c. c = CHR ''-'')) (Cls (\<lambda>c. c = CHR ''*''))))) (g, s) =
      (case after_digits_period s of None \<Rightarrow> [] | Some r \<Rightarrow> [(g, r)]) @
      (case after_capital_period s of None \<Rightarrow> [] | Some r \<Rightarrow> [(g, r)]) @
      (case after_hyphen_or_asterisk s of None \<Rightarrow> [] | Some r \<Rightarrow> [(g, r)])"
proof -
  have "rmatch (Alt (Seq (Rep 1 is_decimal) (Cls (\<lambda>c. c = CHR ''.'')))
            (Alt (Seq (Cls is_ascii_capital) (Cls (\<lambda>c. c = CHR ''.'')))
              (Alt (Cls (\<lambda>c. c = CHR ''-'')) (Cls (\<lambda>c. c = CHR ''*''))))) (g, s) =
     rmatch (Seq (Rep 1 is_decimal) (Cls (\<lambda>c. c = CHR ''.''))) (g, s) @
     rmatch (Seq (Cls is_ascii_capital) (Cls (\<lambda>c. c = CHR ''.''))) (g, s) @
     rmatch (Alt (Cls (\<lambda>c. c = CHR ''-'')) (Cls (\<lambda>c. c = CHR ''*''))) (g, s)"
    by (simp only: rmatch.simps(4))
  then show ?thesis
    by (simp only: rmatch_digits_period rmatch_capital_period rmatch_hyphen_or_asterisk)
qed

lemma marker_group_ends:
  "snd ` set (rmatch (Grp 1 (Alt (Seq (Rep 1 is_decimal) (Cls (\<lambda>c. c = CHR ''.'')))
            (Alt (Seq (Cls is_ascii_capital) (Cls (\<lambda>c. c = CHR ''.'')))
              (Alt (Cls (\<lambda>c. c = CHR ''-'')) (Cls (\<lambda>c. c = CHR ''*'')))))) (g, s)) =
   {r. after_digits_period s = Some r \<or> after_capital_period s = Some r \<or>
      after_hyphen_or_asterisk s = Some r}"
  unfolding rmatch.simps(5) alt_marker
  by (cases "after_digits_period s"; cases "after_capital_period s";
      cases "after_hyphen_or_asterisk s") (auto simp: set_eq_iff)

lemma space_first_SomeD: "space_first x \<Longrightarrow> \<exists>r. x = Some r"
  by (cases x) (simp_all add: space_first_def)

lemma starts_with_number_iff:
  "starts_with_number s \<longleftrightarrow> begins_with_spaced_list_marker s"
proof -
  let ?M = "Alt (Seq (Rep 1 is_decimal) (Cls (\<lambda>c. c = CHR ''.'')))
            (Alt (Seq (Cls is_ascii_capital) (Cls (\<lambda>c. c = CHR ''.'')))
              (Alt (Cls (\<lambda>c. c = CHR ''-'')) (Cls (\<lambda>c. c = CHR ''*''))))"
  let ?ends = "{r. after_digits_period s = Some r \<or> after_capital_period s = Some r \<or>
      after_hyphen_or_asterisk s = Some r}"
  have "starts_with_number s \<longleftrightarrow> rmatch (Seq (Grp 1 ?M) (Cls isspace)) (Map.empty, s) \<noteq> []"
    by (simp add: starts_with_number_def re_match_None_iff list_marker_re_def)
  also have "\<dots> \<longleftrightarrow> (\<exists>x\<in>set (rmatch (Grp 1 ?M) (Map.empty, s)). rmatch (Cls isspace) x \<noteq> [])"
    by (simp add: rmatch.simps(3))
  also have "\<dots> \<longleftrightarrow> (\<exists>x\<in>set (rmatch (Grp 1 ?M) (Map.empty, s)). space_first (Some (snd x)))"
  proof (intro bex_cong refl)
    fix x :: "groups \<times> string"
    show "rmatch (Cls isspace) x \<noteq> [] \<longleftrightarrow> space_first (Some (snd x))"
      using rmatch_space_first [of "fst x" "snd x"] by simp
  qed
  also have "\<dots> \<longleftrightarrow> (\<exists>r\<in>snd ` set (rmatch (Grp 1 ?M) (Map.empty, s)). space_first (Some r))"
    by (simp only: bex_simps(7))
  also have "\<dots> \<longleftrightarrow> (\<exists>r\<in>?ends. space_first (Some r))"
    by (simp only: marker_group_ends)
  also have "\<dots> \<longleftrightarrow> begins_with_spaced_list_marker s"
  proof
    assume "\<exists>r\<in>?ends. space_first (Some r)"
    then show "begins_with_spaced_list_marker s"
      by (auto simp: begins_with_spaced_list_marker_def)
  next
    assume "begins_with_spaced_list_marker s"
    then consider "space_first (after_digits_period s)" | "space_first (after_capital_period s)"
      | "space_first (after_hyphen_or_asterisk s)"
      by (auto simp: begins_with_spaced_list_marker_def)
    then show "\<exists>r\<in>?ends. space_first (Some r)"
    proof cases
      case 1
      from space_first_SomeD [OF 1] obtain r where "after_digits_period s = Some r" ..
      with 1 show ?thesis by (intro bexI [of _ r]) simp_all
    next
      case 2
      from space_first_SomeD [OF 2] obtain r where "after_capital_period s = Some r" ..
      with 2 show ?thesis by (intro bexI [of _ r]) simp_all
    next
      case 3
      from space_first_SomeD [OF 3] obtain r where "after_hyphen_or_asterisk s = Some r" ..
      with 3 show ?thesis by (intro bexI [of _ r]) simp_all
    qed
  qed
  finally show ?thesis .
qed


lemma normalize_step_open:
  "current_item (normalize_step st line) \<noteq> None \<and>
   last_line_was_terminated (normalize_step st line) =
     (if is_continuation st (strip line) then last_line_was_terminated st
      else has_page_number (strip line))"
  by (cases "current_item st") (auto simp: normalize_step_def Let_def is_continuation_def)

lemma normalize_loop_invariant:
  "ls \<noteq> [] \<Longrightarrow>
     current_item (foldl normalize_step norm_init ls) \<noteq> None \<and>
     last_line_was_terminated (foldl normalize_step norm_init ls) =
       has_page_number (strip (last ls))"
proof (induction ls rule: rev_induct)
  case Nil
  then show ?case by simp
next
  case (snoc l ls)
  let ?st = "foldl normalize_step norm_init ls"
  show ?case
  proof (cases "is_continuation ?st (strip l)")
    case False
    with normalize_step_open [of ?st l] show ?thesis by simp
  next
    case True
    then have "\<not> last_line_was_terminated ?st" "\<not> has_page_number (strip l)"
      by (simp_all add: is_continuation_def)
    with True normalize_step_open [of ?st l] show ?thesis by simp
  qed
qed

text \<open>
  Claim C3 as stated fails on a title followed by a line that starts with a section
  number: the line 1.1 Background begins with digits followed by a period, yet the
  code takes it for a continuation and appends it to the title, because it only takes
  a marker for a list marker when a white space character follows it.
\<close>

theorem continuation_list_marker_counterexample:
  "is_continuation (foldl normalize_step norm_init (take 1 [''Intro'', ''1.1 Background'']))
     (strip ([''Intro'', ''1.1 Background''] ! 1)) \<and>
   begins_with_list_marker (strip ([''Intro'', ''1.1 Background''] ! 1)) \<and>
   normalize_outline ''Intro\<newline>1.1 Background'' = ''Intro 1.1 Background''"
  by code_simp

text \<open>
  Claim C3, amended. Let the loop of the normalizer have read the first \<open>i\<close> lines.
  Line \<open>i\<close> is taken for a continuation if and only if the line before it did not end
  in a detected page-number token, the line itself has no detected page-number token,
  its content does not begin with a list marker (digits and a period, a capital letter
  and a period, a hyphen, or an asterisk) that is followed by a white space character,
  and an item is open. A continuation is appended to the open item after one space,
  and nothing is written out; any other line closes the open item and opens a new
  one with its own content.
\<close>

theorem continuation_iff:
  assumes "i < length ls"
  shows
    "(is_continuation (foldl normalize_step norm_init (take i ls)) (strip (ls ! i)) \<longleftrightarrow>
        (0 < i \<longrightarrow> \<not> has_page_number (strip (ls ! (i - 1)))) \<and>
        \<not> has_page_number (strip (ls ! i)) \<and>
        \<not> begins_with_spaced_list_marker (strip (ls ! i)) \<and>
        current_item (foldl normalize_step norm_init (take i ls)) \<noteq> None) \<and>
     (is_continuation (foldl normalize_step norm_init (take i ls)) (strip (ls ! i)) \<longrightarrow>
        (\<exists>item. current_item (foldl normalize_step norm_init (take i ls)) = Some item \<and>
           normalize_step (foldl normalize_step norm_init (take i ls)) (ls ! i) =
             (foldl normalize_step norm_init (take i ls))
               \<lparr>current_item := Some (item @ '' '' @ strip (ls ! i))\<rparr>)) \<and>
     (\<not> is_continuation (foldl normalize_step norm_init (take i ls)) (strip (ls ! i)) \<longrightarrow>
        current_item (normalize_step (foldl normalize_step norm_init (take i ls)) (ls ! i)) =
          Some (strip (ls ! i)) \<and>
        clean_lines (normalize_step (foldl normalize_step norm_init (take i ls)) (ls ! i)) =
          finalize_item (foldl normalize_step norm_init (take i ls)))"
proof -
  let ?st = "foldl normalize_step norm_init (take i ls)"
  have flag: "last_line_was_terminated ?st \<longleftrightarrow> (0 < i \<longrightarrow> has_page_number (strip (ls ! (i - 1))))"
  proof (cases i)
    case 0
    then show ?thesis by (simp add: norm_init_def)
  next
    case (Suc j)
    with assms have "take i ls \<noteq> []" "last (take i ls) = ls ! j"
      by (auto simp: take_Suc_conv_app_nth)
    with normalize_loop_invariant [of "take i ls"] Suc show ?thesis by simp
  qed
  have open_item: "current_item ?st \<noteq> None \<longleftrightarrow> 0 < i"
  proof (cases i)
    case 0
    then show ?thesis by (simp add: norm_init_def)
  next
    case (Suc j)
    with assms have "take i ls \<noteq> []" by auto
    with normalize_loop_invariant [of "take i ls"] Suc show ?thesis by simp
  qed
  have 1: "is_continuation ?st (strip (ls ! i)) \<longleftrightarrow>
        (0 < i \<longrightarrow> \<not> has_page_number (strip (ls ! (i - 1)))) \<and>
        \<not> has_page_number (strip (ls ! i)) \<and>
        \<not> begins_with_spaced_list_marker (strip (ls ! i)) \<and>
        current_item ?st \<noteq> None"
    unfolding is_continuation_def starts_with_number_iff using flag open_item by auto
  have 2: "\<exists>item. current_item ?st = Some item \<and>
      normalize_step ?st (ls ! i) = ?st\<lparr>current_item := Some (item @ '' '' @ strip (ls ! i))\<rparr>"
    if "is_continuation ?st (strip (ls ! i))"
  proof -
    from that obtain item where "current_item ?st = Some item"
      by (auto simp: is_continuation_def)
    with that show ?thesis by (simp add: normalize_step_def Let_def)
  qed
  have 3: "current_item (normalize_step ?st (ls ! i)) = Some (strip (ls ! i)) \<and>
      clean_lines (normalize_step ?st (ls ! i)) = finalize_item ?st"
    if "\<not> is_continuation ?st (strip (ls ! i))"
    using that by (simp add: normalize_step_def Let_def)
  from 1 2 3 show ?thesis by blast
qed

text \<open>
  Claim C3 on a title that wraps: the second line is a continuation and is appended to
  the first after one space.
\<close>

theorem continuation_iff_witness:
  "(1::nat) < length [''Some Title'', ''    that wraps''] \<and>
   is_continuation (foldl normalize_step norm_init (take 1 [''Some Title'', ''    that wraps'']))
     (strip ([''Some Title'', ''    that wraps''] ! 1)) \<and>
   \<not> has_page_number (strip ([''Some Title'', ''    that wraps''] ! (1 - 1))) \<and>
   normalize_outline ''Some Title\<newline>    that wraps'' = ''Some Title that wraps''"
proof -
  have len: "(1::nat) < length [''Some Title'', ''    that wraps'']" by simp
  have c: "(0 < (1::nat) \<longrightarrow> \<not> has_page_number (strip ([''Some Title'', ''    that wraps''] ! (1 - 1)))) \<and>
        \<not> has_page_number (strip ([''Some Title'', ''    that wraps''] ! 1)) \<and>
        \<not> begins_with_spaced_list_marker (strip ([''Some Title'', ''    that wraps''] ! 1)) \<and>
        current_item (foldl normalize_step norm_init (take 1 [''Some Title'', ''    that wraps''])) \<noteq> None"
    by code_simp
  have n: "normalize_outline ''Some Title\<newline>    that wraps'' = ''Some Title that wraps''"
    by code_simp
  from continuation_iff [OF len]
  have "is_continuation (foldl normalize_step norm_init (take 1 [''Some Title'', ''    that wraps'']))
      (strip ([''Some Title'', ''    that wraps''] ! 1)) \<longleftrightarrow>
    (0 < (1::nat) \<longrightarrow> \<not> has_page_number (strip ([''Some Title'', ''    that wraps''] ! (1 - 1)))) \<and>
        \<not> has_page_number (strip ([''Some Title'', ''    that wraps''] ! 1)) \<and>
        \<not> begins_with_spaced_list_marker (strip ([''Some Title'', ''    that wraps''] ! 1)) \<and>
        current_item (foldl normalize_step norm_init (take 1 [''Some Title'', ''    that wraps''])) \<noteq> None"
    by (rule conjunct1)
  then have "is_continuation (foldl normalize_step norm_init (take 1 [''Some Title'', ''    that wraps'']))
      (strip ([''Some Title'', ''    that wraps''] ! 1))"
    using c by (rule iffD2)
  with len c n show ?thesis by simp
qed


section \<open>Lines and white space\<close>

lemma space_not_decimal: "isspace c \<Longrightarrow> \<not> is_decimal c"
  by (auto simp: isspace_def is_decimal_def)

lemma linefeed_is_linebreak: "is_linebreak (CHR 0x0A)"
  by (simp add: is_linebreak_def)

lemma linebreak_is_space: "is_linebreak c \<Longrightarrow> isspace c"
  by (auto simp: is_linebreak_def isspace_def)

declare splitlines.simps [simp del]

lemma splitlines_no_linebreak:
  "l \<in> set (splitlines t) \<Longrightarrow> \<forall>c\<in>set l. \<not> is_linebreak c"
proof (induction t arbitrary: l rule: splitlines.induct)
  case 1
  then show ?case by (simp add: splitlines.simps(1))
next
  case (2 c cs)
  define first where "first = takeWhile (\<lambda>x. \<not> is_linebreak x) (c # cs)"
  define rest where "rest = dropWhile (\<lambda>x. \<not> is_linebreak x) (c # cs)"
  have first: "\<forall>x\<in>set first. \<not> is_linebreak x"
    unfolding first_def by (auto dest: set_takeWhileD)
  have eq: "splitlines (c # cs) =
      first # (case rest of [] \<Rightarrow> [] | b # bs \<Rightarrow>
        (case bs of [] \<Rightarrow> []
         | d # ds \<Rightarrow> if b = CHR 0x0D \<and> d = CHR 0x0A then splitlines ds else splitlines bs))"
    unfolding first_def rest_def by (rule splitlines.simps(2))
  show ?case
  proof (cases rest)
    case Nil
    with eq "2.prems" first show ?thesis by (simp del: splitlines.simps)
  next
    case (Cons b bs)
    note rest_eq = Cons [unfolded rest_def]
    show ?thesis
    proof (cases bs)
      case Nil
      with eq "2.prems" first Cons show ?thesis by (simp del: splitlines.simps)
    next
      case (Cons d ds)
      show ?thesis
      proof (cases "b = CHR 0x0D \<and> d = CHR 0x0A")
        case True
        with eq \<open>rest = b # bs\<close> Cons have "splitlines (c # cs) = first # splitlines ds"
          by (simp del: splitlines.simps)
        with "2.prems" have "l = first \<or> l \<in> set (splitlines ds)"
          by (simp del: splitlines.simps)
        with first "2.IH"(1) [OF rest_eq Cons True] show ?thesis by blast
      next
        case False
        with eq \<open>rest = b # bs\<close> Cons have "splitlines (c # cs) = first # splitlines bs"
          by (simp del: splitlines.simps)
        with "2.prems" have "l = first \<or> l \<in> set (splitlines bs)"
          by (simp del: splitlines.simps)
        with first "2.IH"(2) [OF rest_eq Cons False] show ?thesis by blast
      qed
    qed
  qed
qed

lemma splitlines_Nil_iff: "splitlines t = [] \<longleftrightarrow> t = []"
  by (cases t) (simp_all add: splitlines.simps)

lemma set_lstrip: "set (lstrip s) \<subseteq> set s"
  by (auto simp: lstrip_def dest: set_dropWhileD)

lemma set_rstrip: "set (rstrip s) \<subseteq> set s"
  by (auto simp: rstrip_def dest: set_dropWhileD)

lemma set_strip: "set (strip s) \<subseteq> set s"
  using set_lstrip [of "rstrip s"] set_rstrip [of s] by (auto simp: strip_def)


section \<open>The patterns of the beautifier\<close>

lemma rmatch_Eol_digit: "is_decimal c \<Longrightarrow> rmatch Eol (g, c # cs) = []"
  by (auto simp: rmatch.simps is_decimal_def)

lemma rmatch_digits_end:
  "rmatch digits_end_re (g, s) =
     (if takeWhile is_decimal s \<noteq> [] \<and>
         (dropWhile is_decimal s = [] \<or> dropWhile is_decimal s = [CHR 0x0A])
      then [(g, dropWhile is_decimal s)] else [])"
proof -
  have "rmatch Eol (g, drop k s) = []" if "k < length (takeWhile is_decimal s)" for k
  proof -
    from drop_within_takeWhile [OF that] obtain c cs where "drop k s = c # cs" "is_decimal c"
      by blast
    then show ?thesis by (simp add: rmatch_Eol_digit)
  qed
  then have "rmatch (Seq (Rep 1 is_decimal) Eol) (g, s) =
      (if 1 \<le> length (takeWhile is_decimal s) then rmatch Eol (g, dropWhile is_decimal s) else [])"
    by (rule rmatch_Rep_Seq)
  then show ?thesis
    by (cases "takeWhile is_decimal s")
      (simp_all add: digits_end_re_def rmatch.simps del: takeWhile_eq_Nil_iff dropWhile_eq_Nil_conv)
qed

lemma match_digits_end_iff:
  assumes "CHR 0x0A \<notin> set s"
  shows "rmatch digits_end_re (g, s) \<noteq> [] \<longleftrightarrow> s \<noteq> [] \<and> list_all is_decimal s"
proof -
  have "dropWhile is_decimal s \<noteq> [CHR 0x0A]"
  proof
    assume "dropWhile is_decimal s = [CHR 0x0A]"
    then have "CHR 0x0A \<in> set (dropWhile is_decimal s)" by simp
    with assms show False by (auto dest: set_dropWhileD)
  qed
  then have "rmatch digits_end_re (g, s) \<noteq> [] \<longleftrightarrow>
      takeWhile is_decimal s \<noteq> [] \<and> dropWhile is_decimal s = []"
    by (simp add: rmatch_digits_end del: takeWhile_eq_Nil_iff dropWhile_eq_Nil_conv)
  also have "\<dots> \<longleftrightarrow> s \<noteq> [] \<and> list_all is_decimal s"
    by (cases s) (auto simp: list_all_iff)
  finally show ?thesis .
qed

lemma re_search_None_iff:
  "re_search r s = None \<longleftrightarrow> (\<forall>k\<le>length s. rmatch r (Map.empty, drop k s) = [])"
  by (simp add: re_search_def search_from_None_iff)

lemma search_digits_end_iff:
  assumes "CHR 0x0A \<notin> set c"
  shows "re_search digits_end_re c \<noteq> None \<longleftrightarrow> c \<noteq> [] \<and> is_decimal (last c)"
proof -
  have nl: "CHR 0x0A \<notin> set (drop k c)" for k
    using assms by (auto dest: in_set_dropD)
  have "re_search digits_end_re c \<noteq> None \<longleftrightarrow>
      (\<exists>k\<le>length c. drop k c \<noteq> [] \<and> list_all is_decimal (drop k c))"
    by (simp add: re_search_None_iff match_digits_end_iff [OF nl] del: drop_eq_Nil)
  also have "\<dots> \<longleftrightarrow> c \<noteq> [] \<and> is_decimal (last c)"
  proof
    assume "\<exists>k\<le>length c. drop k c \<noteq> [] \<and> list_all is_decimal (drop k c)"
    then obtain k where k: "drop k c \<noteq> []" "list_all is_decimal (drop k c)" by blast
    then have "k < length c" by simp
    then have "last (drop k c) = last c" by simp
    moreover from k(1) have "last (drop k c) \<in> set (drop k c)" by (rule last_in_set)
    with k(2) have "is_decimal (last (drop k c))" by (simp only: list_all_iff)
    ultimately show "c \<noteq> [] \<and> is_decimal (last c)" using k(1) by auto
  next
    assume a: "c \<noteq> [] \<and> is_decimal (last c)"
    then have "drop (length c - 1) c = [last c]"
      by (metis append_butlast_last_id append_eq_conv_conj length_butlast)
    with a show "\<exists>k\<le>length c. drop k c \<noteq> [] \<and> list_all is_decimal (drop k c)"
      by (intro exI [of _ "length c - 1"]) simp
  qed
  finally show ?thesis .
qed

lemma trailing_digits_Nil_iff: "trailing_digits c = [] \<longleftrightarrow> c = [] \<or> \<not> is_decimal (last c)"
  by (cases "rev c") (auto simp: trailing_digits_def last_rev [symmetric] simp del: last_rev)


lemma rev_digits_split:
  assumes "list_all is_decimal r" and "\<not> is_decimal w"
  shows "takeWhile is_decimal (rev (p @ w # r)) = rev r"
    and "dropWhile is_decimal (rev (p @ w # r)) = w # rev p"
proof -
  have r: "\<And>x. x \<in> set (rev r) \<Longrightarrow> is_decimal x"
    using assms(1) by (simp add: list_all_iff)
  have e: "rev (p @ w # r) = rev r @ w # rev p" by simp
  have "takeWhile is_decimal (rev r @ w # rev p) = rev r @ takeWhile is_decimal (w # rev p)"
    by (rule takeWhile_append2) (rule r)
  with assms(2) show "takeWhile is_decimal (rev (p @ w # r)) = rev r"
    by (simp only: e takeWhile.simps if_False append_Nil2)
  have "dropWhile is_decimal (rev r @ w # rev p) = dropWhile is_decimal (w # rev p)"
    by (rule dropWhile_append2) (rule r)
  with assms(2) show "dropWhile is_decimal (rev (p @ w # r)) = w # rev p"
    by (simp only: e dropWhile.simps if_False)
qed

lemma one_space_shape_iff:
  "(\<exists>p x w r. c = p @ x # w # r \<and> \<not> isspace x \<and> isspace w \<and> r \<noteq> [] \<and> list_all is_decimal r)
     \<longleftrightarrow> one_space_before_digits c \<and> c \<noteq> [] \<and> is_decimal (last c)"
proof
  assume "\<exists>p x w r. c = p @ x # w # r \<and> \<not> isspace x \<and> isspace w \<and> r \<noteq> [] \<and> list_all is_decimal r"
  then obtain p x w r where c: "c = (p @ [x]) @ w # r" and x: "\<not> isspace x" and w: "isspace w"
    and r: "r \<noteq> []" "list_all is_decimal r" by auto
  from w have "\<not> is_decimal w" by (rule space_not_decimal)
  from rev_digits_split(2) [OF r(2) this, of "p @ [x]"] c
  have "dropWhile is_decimal (rev c) = w # x # rev p" by simp
  with x w have "one_space_before_digits c" by (simp add: one_space_before_digits_def)
  moreover from c r have "last c = last r" by simp
  moreover from r have "last r \<in> set r" by simp
  with r(2) have "is_decimal (last r)" by (simp only: list_all_iff)
  ultimately show "one_space_before_digits c \<and> c \<noteq> [] \<and> is_decimal (last c)"
    using c by simp
next
  assume a: "one_space_before_digits c \<and> c \<noteq> [] \<and> is_decimal (last c)"
  then obtain w x q where d: "dropWhile is_decimal (rev c) = w # x # q" and w: "isspace w"
    and x: "\<not> isspace x"
    by (auto simp: one_space_before_digits_def split: list.splits)
  define r where "r = rev (takeWhile is_decimal (rev c))"
  have "rev c = takeWhile is_decimal (rev c) @ dropWhile is_decimal (rev c)" by simp
  with d have "rev c = rev r @ w # x # q" by (simp add: r_def)
  then have "rev (rev c) = rev (rev r @ w # x # q)" by (rule arg_cong)
  then have c: "c = rev q @ x # w # r" by simp
  have "list_all is_decimal r"
    unfolding r_def by (auto simp: list_all_iff dest: set_takeWhileD)
  moreover from a have "r \<noteq> []"
    unfolding r_def by (cases "rev c") (auto simp: last_rev [symmetric] simp del: last_rev)
  ultimately show "\<exists>p x w r. c = p @ x # w # r \<and> \<not> isspace x \<and> isspace w \<and> r \<noteq> [] \<and>
      list_all is_decimal r"
    using c w x by blast
qed

lemma rmatch_one_space_tail:
  "rmatch (Seq (Cls (\<lambda>c. \<not> isspace c)) (Seq (Cls isspace) digits_end_re)) (g, s) \<noteq> [] \<longleftrightarrow>
     (\<exists>x w r. s = x # w # r \<and> \<not> isspace x \<and> isspace w \<and> rmatch digits_end_re (g, r) \<noteq> [])"
proof (cases s)
  case Nil
  then show ?thesis by (simp add: rmatch.simps)
next
  case (Cons x s')
  show ?thesis
  proof (cases s')
    case Nil
    with Cons show ?thesis by (simp add: rmatch.simps)
  next
    case (Cons w r)
    with \<open>s = x # s'\<close> show ?thesis by (simp add: rmatch.simps)
  qed
qed

lemma match_one_space_iff:
  assumes "CHR 0x0A \<notin> set c"
  shows "re_match one_space_re c \<noteq> None \<longleftrightarrow>
     one_space_before_digits c \<and> c \<noteq> [] \<and> is_decimal (last c)"
proof -
  let ?T = "Seq (Cls (\<lambda>c. \<not> isspace c)) (Seq (Cls isspace) digits_end_re)"
  have re: "one_space_re = Seq (Rep 0 (\<lambda>c. c \<noteq> CHR 0x0A)) ?T"
    by (simp add: one_space_re_def digits_end_re_def)
  have all: "takeWhile (\<lambda>c. c \<noteq> CHR 0x0A) c = c"
    using assms by (auto simp: takeWhile_eq_all_conv)
  have "re_match one_space_re c \<noteq> None \<longleftrightarrow>
      (\<exists>y\<in>set (rmatch (Rep 0 (\<lambda>c. c \<noteq> CHR 0x0A)) (Map.empty, c)). rmatch ?T y \<noteq> [])"
    by (simp add: re_match_None_iff re rmatch.simps(3))
  also have "\<dots> \<longleftrightarrow> (\<exists>k\<le>length c. rmatch ?T (Map.empty, drop k c) \<noteq> [])"
  proof
    assume "\<exists>y\<in>set (rmatch (Rep 0 (\<lambda>c. c \<noteq> CHR 0x0A)) (Map.empty, c)). rmatch ?T y \<noteq> []"
    then obtain g' s' where y: "(g', s') \<in> set (rmatch (Rep 0 (\<lambda>c. c \<noteq> CHR 0x0A)) (Map.empty, c))"
      "rmatch ?T (g', s') \<noteq> []" by auto
    from y(1) [unfolded rmatch_Rep_mem all] y(2)
    show "\<exists>k\<le>length c. rmatch ?T (Map.empty, drop k c) \<noteq> []" by blast
  next
    assume "\<exists>k\<le>length c. rmatch ?T (Map.empty, drop k c) \<noteq> []"
    then obtain k where k: "k \<le> length c" "rmatch ?T (Map.empty, drop k c) \<noteq> []" by blast
    from k(1) have "(Map.empty, drop k c) \<in> set (rmatch (Rep 0 (\<lambda>c. c \<noteq> CHR 0x0A)) (Map.empty, c))"
      unfolding rmatch_Rep_mem all by blast
    with k(2) show "\<exists>y\<in>set (rmatch (Rep 0 (\<lambda>c. c \<noteq> CHR 0x0A)) (Map.empty, c)). rmatch ?T y \<noteq> []"
      by blast
  qed
  also have "\<dots> \<longleftrightarrow> (\<exists>k\<le>length c. \<exists>x w r. drop k c = x # w # r \<and> \<not> isspace x \<and> isspace w \<and>
      r \<noteq> [] \<and> list_all is_decimal r)"
  proof (intro ex_cong1 conj_cong refl)
    fix k
    have "CHR 0x0A \<notin> set r" if "drop k c = x # w # r" for x w r
    proof -
      have "set r \<subseteq> set (drop k c)" using that by auto
      with assms show ?thesis by (auto dest: in_set_dropD)
    qed
    then show "rmatch ?T (Map.empty, drop k c) \<noteq> [] \<longleftrightarrow>
        (\<exists>x w r. drop k c = x # w # r \<and> \<not> isspace x \<and> isspace w \<and> r \<noteq> [] \<and>
          list_all is_decimal r)"
      by (auto simp: rmatch_one_space_tail match_digits_end_iff simp del: drop_eq_Nil)
  qed
  also have "\<dots> \<longleftrightarrow> (\<exists>p x w r. c = p @ x # w # r \<and> \<not> isspace x \<and> isspace w \<and> r \<noteq> [] \<and>
      list_all is_decimal r)"
  proof
    assume "\<exists>k\<le>length c. \<exists>x w r. drop k c = x # w # r \<and> \<not> isspace x \<and> isspace w \<and>
      r \<noteq> [] \<and> list_all is_decimal r"
    then obtain k x w r where "drop k c = x # w # r" "\<not> isspace x" "isspace w" "r \<noteq> []"
      "list_all is_decimal r" by blast
    moreover have "c = take k c @ drop k c" by simp
    ultimately show "\<exists>p x w r. c = p @ x # w # r \<and> \<not> isspace x \<and> isspace w \<and> r \<noteq> [] \<and>
      list_all is_decimal r" by metis
  next
    assume "\<exists>p x w r. c = p @ x # w # r \<and> \<not> isspace x \<and> isspace w \<and> r \<noteq> [] \<and>
      list_all is_decimal r"
    then obtain p x w r where "c = p @ x # w # r" "\<not> isspace x" "isspace w" "r \<noteq> []"
      "list_all is_decimal r" by blast
    then show "\<exists>k\<le>length c. \<exists>x w r. drop k c = x # w # r \<and> \<not> isspace x \<and> isspace w \<and>
      r \<noteq> [] \<and> list_all is_decimal r"
      by (intro exI [of _ "length p"]) simp
  qed
  finally show ?thesis by (simp only: one_space_shape_iff)
qed


lemma search_two_spaces:
  assumes nl: "CHR 0x0A \<notin> set c" and found: "re_search two_spaces_re c \<noteq> None"
  shows "\<not> one_space_before_digits c"
proof -
  from found obtain k where "rmatch two_spaces_re (Map.empty, drop k c) \<noteq> []"
    by (auto simp: re_search_None_iff)
  then obtain g' s' where "(g', s') \<in> set (rmatch (Seq (Rep 2 isspace) digits_end_re) (Map.empty, drop k c))"
    by (cases "rmatch two_spaces_re (Map.empty, drop k c)")
      (auto simp: two_spaces_re_def digits_end_re_def)
  from rmatch_Seq_memD [OF this] obtain g1 s1 where
    1: "(g1, s1) \<in> set (rmatch (Rep 2 isspace) (Map.empty, drop k c))" and
    2: "(g', s') \<in> set (rmatch digits_end_re (g1, s1))" by auto
  from rmatch_Rep_memD [OF 1] obtain ws where ws: "drop k c = ws @ s1" "2 \<le> length ws"
    "list_all isspace ws" by blast
  have "set s1 \<subseteq> set (drop k c)" using ws(1) by simp
  with nl have "CHR 0x0A \<notin> set s1" by (auto dest: in_set_dropD)
  from match_digits_end_iff [OF this, of g1] 2 have s1: "s1 \<noteq> []" "list_all is_decimal s1"
    by auto
  define rw where "rw = rev ws"
  then have ws_rev: "ws = rev rw" by simp
  from ws(2) have "Suc (Suc 0) \<le> length rw" by (simp add: rw_def)
  then obtain w1 w2 r where "rw = w1 # w2 # r" by (auto simp: Suc_le_length_iff)
  with ws_rev have "ws = rev r @ [w2, w1]" by simp
  then obtain ws' where wsd: "ws = ws' @ [w2, w1]" ..
  with ws(3) have sp: "isspace w1" "isspace w2" by simp_all
  define p where "p = take k c @ ws' @ [w2]"
  have "take k c @ drop k c = c" by simp
  with ws(1) wsd have c: "p @ w1 # s1 = c" by (simp add: p_def)
  from sp(1) have "\<not> is_decimal w1" by (rule space_not_decimal)
  from rev_digits_split(2) [OF s1(2) this, of p]
  have "dropWhile is_decimal (rev c) = w1 # rev p" by (simp only: c)
  moreover have "rev p = w2 # rev (take k c @ ws')" by (simp add: p_def)
  ultimately show ?thesis using sp by (simp add: one_space_before_digits_def)
qed

lemma line_beautified_equiv:
  assumes "CHR 0x0A \<notin> set line"
  shows "line_is_beautified line \<longleftrightarrow> spec_line_beautified line"
proof -
  let ?c = "strip line"
  from assms set_strip [of line] have nl: "CHR 0x0A \<notin> set ?c" by auto
  show ?thesis
  proof (cases "?c \<noteq> [] \<and> is_decimal (last ?c)")
    case False
    then have "re_search digits_end_re ?c = None" "trailing_digits ?c = []"
      using search_digits_end_iff [OF nl] trailing_digits_Nil_iff [of ?c] by auto
    then show ?thesis by (simp add: line_is_beautified_def spec_line_beautified_def Let_def)
  next
    case True
    then have d: "re_search digits_end_re ?c \<noteq> None" "trailing_digits ?c \<noteq> []"
      using search_digits_end_iff [OF nl] trailing_digits_Nil_iff [of ?c] by auto
    from True match_one_space_iff [OF nl]
    have one: "re_match one_space_re ?c \<noteq> None \<longleftrightarrow> one_space_before_digits ?c" by simp
    from search_two_spaces [OF nl]
    have two: "one_space_before_digits ?c \<Longrightarrow> re_search two_spaces_re ?c = None" by blast
    from d one two show ?thesis
      by (auto simp: line_is_beautified_def spec_line_beautified_def Let_def)
  qed
qed

lemma lines_beautified_equiv:
  assumes "\<forall>l\<in>set ls. CHR 0x0A \<notin> set l"
  shows "lines_are_beautified ls \<longleftrightarrow>
    list_all (\<lambda>line. strip line = [] \<or> spec_line_beautified line) ls"
  using assms
proof (induction ls)
  case Nil
  then show ?case by simp
next
  case (Cons l ls)
  then have "line_is_beautified l \<longleftrightarrow> spec_line_beautified l"
    by (intro line_beautified_equiv) simp
  with Cons show ?case by simp
qed

lemma splitlines_no_linefeed: "\<forall>l\<in>set (splitlines t). CHR 0x0A \<notin> set l"
  using splitlines_no_linebreak [of _ t] linefeed_is_linebreak by blast

text \<open>
  Claim C4 as stated fails at the empty text: it has no line at all, so the condition
  on its lines holds, but \<open>is_beautified\<close> returns false for a text without lines.
\<close>

theorem is_beautified_empty_counterexample:
  "spec_is_beautified [] \<and> \<not> is_beautified []"
  by code_simp

text \<open>
  Claim C4, amended. For every text, \<open>is_beautified\<close> is true if and only if the
  text is not empty and, for every line of it that is not blank, the indentation is a
  multiple of 4 and the content either has no trailing digit run or has exactly one
  white space character before the run and a character that is no white space before
  that. For the empty text it is false.
\<close>

theorem is_beautified_iff:
  "is_beautified t \<longleftrightarrow> t \<noteq> [] \<and> spec_is_beautified t"
  using lines_beautified_equiv [OF splitlines_no_linefeed, of t]
  by (simp add: is_beautified_def spec_is_beautified_def Let_def splitlines_Nil_iff)

text \<open>Claim C4 on a text of two lines, the second one indented by four columns.\<close>

theorem is_beautified_iff_witness:
  "is_beautified ''Chapter 1\<newline>    Section 12'' \<and>
   ''Chapter 1\<newline>    Section 12'' \<noteq> [] \<and>
   spec_is_beautified ''Chapter 1\<newline>    Section 12''"
proof -
  have "spec_is_beautified ''Chapter 1\<newline>    Section 12''" by code_simp
  with is_beautified_iff [of "''Chapter 1\<newline>    Section 12''"] show ?thesis by simp
qed


section \<open>The split at the trailing number\<close>

lemma rmatch_Grp_Rep_Seq:
  assumes "\<And>k g'. k < length (takeWhile P s) \<Longrightarrow> rmatch b (g', drop k s) = []"
  shows "rmatch (Seq (Grp i (Rep n P)) b) (g, s) =
           (if n \<le> length (takeWhile P s)
            then rmatch b (g(i \<mapsto> takeWhile P s), dropWhile P s) else [])"
proof (cases "n \<le> length (takeWhile P s)")
  case False
  then show ?thesis by (simp add: rmatch.simps)
next
  case True
  let ?m = "length (takeWhile P s)"
  let ?f = "\<lambda>k. rmatch b (g(i \<mapsto> take (length s - length (drop k s)) s), drop k s)"
  have ms: "?m \<le> length s" by (rule length_takeWhile_le)
  have "rmatch (Seq (Grp i (Rep n P)) b) (g, s) = concat (map ?f (rev [n ..< Suc ?m]))"
    by (simp add: rmatch.simps comp_def)
  also from True have "rev [n ..< Suc ?m] = ?m # rev [n ..< ?m]" by simp
  also have "concat (map ?f (?m # rev [n ..< ?m])) = ?f ?m @ concat (map ?f (rev [n ..< ?m]))"
    by simp
  also have "map ?f (rev [n ..< ?m]) = map (\<lambda>k. []) (rev [n ..< ?m])"
    using assms by (intro map_cong) auto
  also have "concat (map (\<lambda>k. []) (rev [n ..< ?m])) = ([] :: (groups \<times> string) list)"
    by simp
  also have "?f ?m = rmatch b (g(i \<mapsto> takeWhile P s), dropWhile P s)"
  proof -
    have "take ?m s = takeWhile P s" by (rule takeWhile_eq_take [symmetric])
    moreover have "drop ?m s = dropWhile P s" by (rule dropWhile_eq_drop [symmetric])
    moreover have "length s - length (drop ?m s) = ?m" using ms by simp
    ultimately show ?thesis by (simp only:)
  qed
  finally show ?thesis using True by (simp only: if_True append_Nil2)
qed

lemma rmatch_digits_group_end:
  "rmatch (Seq (Grp i (Rep 1 is_decimal)) Eol) (g, s) =
     (if takeWhile is_decimal s \<noteq> [] \<and>
         (dropWhile is_decimal s = [] \<or> dropWhile is_decimal s = [CHR 0x0A])
      then [(g(i \<mapsto> takeWhile is_decimal s), dropWhile is_decimal s)] else [])"
proof -
  have "rmatch Eol (g', drop k s) = []" if "k < length (takeWhile is_decimal s)" for k g'
  proof -
    from drop_within_takeWhile [OF that] obtain c cs where "drop k s = c # cs" "is_decimal c"
      by blast
    then show ?thesis by (simp add: rmatch_Eol_digit)
  qed
  then have "rmatch (Seq (Grp i (Rep 1 is_decimal)) Eol) (g, s) =
      (if 1 \<le> length (takeWhile is_decimal s)
       then rmatch Eol (g(i \<mapsto> takeWhile is_decimal s), dropWhile is_decimal s) else [])"
    by (rule rmatch_Grp_Rep_Seq)
  then show ?thesis
    by (cases "takeWhile is_decimal s")
      (simp_all add: rmatch.simps del: takeWhile_eq_Nil_iff dropWhile_eq_Nil_conv)
qed

lemma rmatch_split_re:
  "rmatch split_re (g, s) =
     (if takeWhile isspace s \<noteq> [] \<and> takeWhile is_decimal (dropWhile isspace s) \<noteq> [] \<and>
         (dropWhile is_decimal (dropWhile isspace s) = [] \<or>
          dropWhile is_decimal (dropWhile isspace s) = [CHR 0x0A])
      then [(g(1 \<mapsto> takeWhile is_decimal (dropWhile isspace s)),
             dropWhile is_decimal (dropWhile isspace s))]
      else [])"
proof -
  have "rmatch (Seq (Grp 1 (Rep 1 is_decimal)) Eol) (g, drop k s) = []"
    if "k < length (takeWhile isspace s)" for k
  proof -
    from drop_within_takeWhile [OF that] obtain c cs where "drop k s = c # cs" "isspace c"
      by blast
    with rmatch_digits_group_end [of 1 g "c # cs"] show ?thesis
      by (simp add: space_not_decimal)
  qed
  then have "rmatch (Seq (Rep 1 isspace) (Seq (Grp 1 (Rep 1 is_decimal)) Eol)) (g, s) =
      (if 1 \<le> length (takeWhile isspace s)
       then rmatch (Seq (Grp 1 (Rep 1 is_decimal)) Eol) (g, dropWhile isspace s) else [])"
    by (rule rmatch_Rep_Seq)
  then show ?thesis
    unfolding split_re_def rmatch_digits_group_end
    by (cases "takeWhile isspace s") (simp_all del: takeWhile_eq_Nil_iff dropWhile_eq_Nil_conv)
qed


lemma lstrip_id: "s = [] \<or> \<not> isspace (hd s) \<Longrightarrow> lstrip s = s"
  by (cases s) (auto simp: lstrip_def)

lemma rstrip_id: "s = [] \<or> \<not> isspace (last s) \<Longrightarrow> rstrip s = s"
proof (cases "rev s")
  case Nil
  then show ?thesis by (simp add: rstrip_def)
next
  case (Cons x xs)
  assume "s = [] \<or> \<not> isspace (last s)"
  moreover from Cons have "last s = x" by (metis last_rev list.sel(1) rev_rev_ident)
  moreover from Cons have "s \<noteq> []" by auto
  ultimately have "dropWhile isspace (rev s) = rev s" using Cons by simp
  then show ?thesis by (simp add: rstrip_def)
qed

lemma tidy_strip_id: "tidy c \<Longrightarrow> strip c = c \<and> lstrip c = c \<and> rstrip c = c"
  by (simp add: tidy_def strip_def lstrip_id rstrip_id)

lemma strip_tidy:
  assumes "strip l \<noteq> []" and "\<forall>x\<in>set l. \<not> is_linebreak x"
  shows "tidy (strip l)"
proof -
  define r where "r = rstrip l"
  have s: "strip l = dropWhile isspace r" by (simp add: strip_def lstrip_def r_def)
  with assms(1) have hd: "\<not> isspace (hd (strip l))" by (simp add: hd_dropWhile)
  from s assms(1) have r_ne: "r \<noteq> []" by auto
  have "rev r = dropWhile isspace (rev l)" by (simp add: r_def rstrip_def)
  with r_ne have "\<not> isspace (hd (rev r))" by (metis hd_dropWhile rev_is_Nil_conv)
  with r_ne have "\<not> isspace (last r)" by (simp add: hd_rev)
  moreover from s assms(1) have "last (strip l) = last r"
    by (metis last_appendR takeWhile_dropWhile_id)
  ultimately have last: "\<not> isspace (last (strip l))" by simp
  from assms(2) set_strip [of l] have "\<forall>x\<in>set (strip l). \<not> is_linebreak x" by blast
  with assms(1) hd last show ?thesis by (simp add: tidy_def)
qed

lemma respace_alt:
  "respace content =
     (case re_search split_re (strip content) of
        None \<Rightarrow> content
      | Some m \<Rightarrow> rstrip (take (m_start m) (strip content)) @ '' '' @ group m 1)"
  by (simp add: respace_def re_split1_def split: option.splits)

lemma in_set_dropWhile_after:
  "\<not> P y \<Longrightarrow> y \<in> set (dropWhile P (xs @ y # ys))"
  by (induction xs) auto

text \<open>No match of the split pattern starts inside a text that ends in a character
  that is no white space and is followed by a space and digits.\<close>

lemma rmatch_split_re_inside:
  assumes "u \<noteq> []" and "\<not> isspace (last u)"
  shows "rmatch split_re (g, u @ CHR '' '' # ds) = []"
proof -
  let ?s = "u @ CHR '' '' # ds"
  from assms have x: "last u \<in> set u" by simp
  have e: "dropWhile isspace ?s = dropWhile isspace u @ CHR '' '' # ds"
    using x assms(2) by (rule dropWhile_append1)
  have "\<not> is_decimal (CHR '' '')" by (simp add: is_decimal_def)
  then have "CHR '' '' \<in> set (dropWhile is_decimal (dropWhile isspace u @ CHR '' '' # ds))"
    by (rule in_set_dropWhile_after)
  then have sp: "CHR '' '' \<in> set (dropWhile is_decimal (dropWhile isspace ?s))"
    by (simp only: e)
  have n1: "dropWhile is_decimal (dropWhile isspace ?s) \<noteq> []"
  proof
    assume "dropWhile is_decimal (dropWhile isspace ?s) = []"
    with sp have "CHR '' '' \<in> set []" by (simp only:)
    then show False by simp
  qed
  have n2: "dropWhile is_decimal (dropWhile isspace ?s) \<noteq> [CHR 0x0A]"
  proof
    assume "dropWhile is_decimal (dropWhile isspace ?s) = [CHR 0x0A]"
    with sp have "CHR '' '' \<in> set [CHR 0x0A]" by (simp only:)
    then show False by simp
  qed
  from n1 n2 show ?thesis by (simp only: rmatch_split_re) simp
qed

lemma rmatch_split_re_space_digits:
  assumes "ds \<noteq> []" and "list_all is_decimal ds"
  shows "rmatch split_re (g, CHR '' '' # ds) = [(g(1 \<mapsto> ds), [])]"
proof -
  from assms obtain d ds' where ds: "ds = d # ds'" "is_decimal d" by (cases ds) auto
  then have "\<not> isspace d" using space_not_decimal by blast
  then have 1: "takeWhile isspace (CHR '' '' # ds) = [CHR '' '']"
    "dropWhile isspace (CHR '' '' # ds) = ds"
    using ds by (simp_all add: isspace_def)
  from assms(2) have 2: "takeWhile is_decimal ds = ds" "dropWhile is_decimal ds = []"
    by (simp_all add: list_all_iff)
  from assms(1) show ?thesis by (simp only: rmatch_split_re 1 2) simp
qed


lemma rmatch_split_re_ConsD:
  assumes "rmatch split_re (g, s) = x # xs"
  shows "takeWhile isspace s \<noteq> [] \<and> takeWhile is_decimal (dropWhile isspace s) \<noteq> [] \<and>
         x = (g(1 \<mapsto> takeWhile is_decimal (dropWhile isspace s)),
              dropWhile is_decimal (dropWhile isspace s)) \<and>
         (dropWhile is_decimal (dropWhile isspace s) = [] \<or>
          dropWhile is_decimal (dropWhile isspace s) = [CHR 0x0A])"
  using assms unfolding rmatch_split_re by (simp split: if_splits del: takeWhile_eq_Nil_iff dropWhile_eq_Nil_conv)

lemma rmatch_split_re_space_Cons:
  assumes "isspace x" and "rmatch split_re (g, s) \<noteq> []"
  shows "rmatch split_re (g, x # s) \<noteq> []"
proof -
  from assms(2) obtain y ys where "rmatch split_re (g, s) = y # ys"
    by (cases "rmatch split_re (g, s)") auto
  from rmatch_split_re_ConsD [OF this] assms(1) show ?thesis
    unfolding rmatch_split_re [of g "x # s"]
    by (simp del: takeWhile_eq_Nil_iff dropWhile_eq_Nil_conv)
qed

lemma search_split_re_SomeD:
  assumes c: "tidy c" and m: "re_search split_re c = Some m"
  shows "0 < m_start m \<and> m_start m \<le> length c \<and>
         \<not> isspace (last (take (m_start m) c)) \<and>
         group m 1 \<noteq> [] \<and> list_all is_decimal (group m 1) \<and> set (group m 1) \<subseteq> set c"
proof -
  from search_from_SomeD [OF m [unfolded re_search_def]] obtain k rest where
    k: "k \<le> length c" "m_start m = k"
    "rmatch split_re (Map.empty, drop k c) = (m_groups m, m_rest m) # rest"
    "\<forall>j<k. rmatch split_re (Map.empty, drop j c) = []" by auto
  let ?s = "drop k c"
  let ?ds = "takeWhile is_decimal (dropWhile isspace ?s)"
  from rmatch_split_re_ConsD [OF k(3)] have
    sp: "takeWhile isspace ?s \<noteq> []" and ds: "?ds \<noteq> []" and
    g: "m_groups m = Map.empty(1 \<mapsto> ?ds)" by simp_all
  from g have grp: "group m 1 = ?ds" by (simp add: group_def)
  have dec: "list_all is_decimal ?ds" by (auto simp: list_all_iff dest: set_takeWhileD)
  have sub: "set ?ds \<subseteq> set c"
  proof
    fix x assume "x \<in> set ?ds"
    then have "x \<in> set (dropWhile isspace ?s)" by (rule set_takeWhileD [THEN conjunct1])
    then have "x \<in> set ?s" by (rule set_dropWhileD)
    then show "x \<in> set c" by (rule in_set_dropD)
  qed
  have pos: "0 < k"
  proof (rule ccontr)
    assume "\<not> 0 < k"
    with sp have "takeWhile isspace c \<noteq> []" by simp
    then have "isspace (hd c)" by (cases c) (auto split: if_splits)
    with c show False by (simp add: tidy_def)
  qed
  with k(1) have lt: "k - 1 < length c" by simp
  then have d: "drop (k - 1) c = c ! (k - 1) # drop (Suc (k - 1)) c"
    by (simp add: Cons_nth_drop_Suc)
  with pos have d': "drop (k - 1) c = c ! (k - 1) # ?s" by simp
  have nsp: "\<not> isspace (c ! (k - 1))"
  proof
    assume "isspace (c ! (k - 1))"
    moreover from k(3) have "rmatch split_re (Map.empty, ?s) \<noteq> []" by simp
    ultimately have "rmatch split_re (Map.empty, c ! (k - 1) # ?s) \<noteq> []"
      by (rule rmatch_split_re_space_Cons)
    moreover from pos k(4) have "rmatch split_re (Map.empty, drop (k - 1) c) = []" by simp
    ultimately show False by (simp only: d')
  qed
  from lt have "take (Suc (k - 1)) c = take (k - 1) c @ [c ! (k - 1)]"
    by (rule take_Suc_conv_app_nth)
  with pos have "last (take k c) = c ! (k - 1)" by simp
  with nsp pos k(1,2) ds dec sub grp show ?thesis by simp
qed


lemma respace_tidy:
  assumes c: "tidy c"
  shows "tidy (respace c) \<and> respace (respace c) = respace c"
proof (cases "re_search split_re c")
  case None
  with c tidy_strip_id [OF c] have "respace c = c" by (simp add: respace_alt)
  with c show ?thesis by simp
next
  case (Some m)
  define t where "t = take (m_start m) c"
  define ds where "ds = group m 1"
  from search_split_re_SomeD [OF c Some] have
    k: "0 < m_start m" "m_start m \<le> length c" and
    tl: "\<not> isspace (last t)" and
    ds: "ds \<noteq> []" "list_all is_decimal ds" "set ds \<subseteq> set c"
    by (simp_all add: t_def ds_def)
  from k have t_ne: "t \<noteq> []" and t_len: "length t = m_start m" by (auto simp: t_def)
  from k c have hd_t: "hd t = hd c" by (simp add: t_def tidy_def)
  have rs: "rstrip t = t" using tl by (simp add: rstrip_id)
  have r1: "respace c = t @ CHR '' '' # ds"
    using Some tidy_strip_id [OF c] rs by (simp add: respace_alt t_def ds_def)
  let ?c' = "t @ CHR '' '' # ds"
  from ds(1,2) have "is_decimal (last ds)" by (simp add: list_all_iff)
  then have last_ds: "\<not> isspace (last ds)" using space_not_decimal by blast
  have "set t \<subseteq> set c" by (simp add: t_def set_take_subset)
  with ds(3) c have nb: "\<forall>x\<in>set ?c'. \<not> is_linebreak x"
    by (auto simp: tidy_def is_linebreak_def)
  from t_ne hd_t c ds(1) last_ds nb have tidy': "tidy ?c'" by (simp add: tidy_def)
  have none_before: "\<forall>j<length t. rmatch split_re (Map.empty, drop j ?c') = []"
  proof (intro allI impI)
    fix j assume j: "j < length t"
    then have "drop j t \<noteq> []" "last (drop j t) = last t" by simp_all
    with tl have "rmatch split_re (Map.empty, drop j t @ CHR '' '' # ds) = []"
      by (intro rmatch_split_re_inside) simp_all
    with j show "rmatch split_re (Map.empty, drop j ?c') = []" by simp
  qed
  have here: "rmatch split_re (Map.empty, drop (length t) ?c') = [(Map.empty(1 \<mapsto> ds), [])]"
    using rmatch_split_re_space_digits [OF ds(1,2)] by simp
  have "length t \<le> length ?c'" by simp
  from search_from_SomeI [OF this here none_before, of 0]
  have s': "re_search split_re ?c' = Some \<lparr>m_start = length t, m_groups = Map.empty(1 \<mapsto> ds), m_rest = []\<rparr>"
    by (simp add: re_search_def)
  have "respace ?c' = ?c'"
    using tidy_strip_id [OF tidy'] s' rs by (simp add: respace_alt group_def)
  with r1 tidy' show ?thesis by simp
qed


section \<open>Lines written by the beautifier\<close>

lemma space_is_space: "isspace (CHR '' '')"
  by (simp add: isspace_def)

lemma space_no_linebreak: "\<not> is_linebreak (CHR '' '')"
  by (simp add: is_linebreak_def)

lemma indented_tidy:
  assumes "tidy c"
  shows "lstrip (replicate n (CHR '' '') @ c) = c"
    and "strip (replicate n (CHR '' '') @ c) = c"
    and "indent_of (replicate n (CHR '' '') @ c) = n"
    and "\<forall>x\<in>set (replicate n (CHR '' '') @ c). \<not> is_linebreak x"
proof -
  let ?b = "replicate n (CHR '' '') @ c"
  from assms have c: "c \<noteq> []" "\<not> isspace (hd c)" "\<not> isspace (last c)" by (simp_all add: tidy_def)
  have "dropWhile isspace ?b = dropWhile isspace c"
    by (rule dropWhile_append2) (simp add: space_is_space)
  with c(1,2) show l: "lstrip ?b = c" by (cases c) (simp_all add: lstrip_def)
  from c have "rstrip ?b = ?b" by (intro rstrip_id) simp
  with l show "strip ?b = c" by (simp add: strip_def)
  from l show "indent_of ?b = n" by (simp add: indent_of_def)
  from assms show "\<forall>x\<in>set ?b. \<not> is_linebreak x"
    by (auto simp: tidy_def space_no_linebreak)
qed

lemma beautify_lines_Cons:
  "strip line \<noteq> [] \<Longrightarrow>
   beautify_lines last_level (line # rest) =
     (if indent_of line div 4 = 0 \<and> last_level \<noteq> - 1 then [[]] else []) @
     (replicate (indent_of line div 4 * 4) (CHR '' '') @ respace (strip line)) #
     beautify_lines (int (indent_of line div 4)) rest"
  by (simp add: Let_def)

lemma beautify_lines_blank: "beautify_lines last_level ([] # rest) = beautify_lines last_level rest"
  by (simp add: strip_def lstrip_def rstrip_def)

lemma beautify_lines_idem:
  assumes "\<forall>l\<in>set ls. \<forall>x\<in>set l. \<not> is_linebreak x"
  shows "beautify_lines last_level (beautify_lines last_level ls) = beautify_lines last_level ls"
  using assms
proof (induction ls arbitrary: last_level)
  case Nil
  then show ?case by simp
next
  case (Cons l ls)
  show ?case
  proof (cases "strip l = []")
    case True
    with Cons show ?thesis by simp
  next
    case False
    from Cons.prems have "\<forall>x\<in>set l. \<not> is_linebreak x" by simp
    from strip_tidy [OF False this] have "tidy (strip l)" .
    from respace_tidy [OF this] have t: "tidy (respace (strip l))"
      and i: "respace (respace (strip l)) = respace (strip l)" by simp_all
    define n where "n = indent_of l div 4"
    define b where "b = replicate (n * 4) (CHR '' '') @ respace (strip l)"
    from indented_tidy(2,3) [OF t, of "n * 4"] have b: "strip b = respace (strip l)"
      "indent_of b = n * 4" by (simp_all add: b_def)
    from b(1) t have b_ne: "strip b \<noteq> []" by (simp add: tidy_def)
    from Cons.prems have "\<forall>l\<in>set ls. \<forall>x\<in>set l. \<not> is_linebreak x" by simp
    from Cons.IH [OF this] have IH:
      "beautify_lines (int n) (beautify_lines (int n) ls) = beautify_lines (int n) ls" .
    have first: "beautify_lines last_level (l # ls) =
        (if n = 0 \<and> last_level \<noteq> - 1 then [[]] else []) @ b # beautify_lines (int n) ls"
      using beautify_lines_Cons [OF False] by (simp add: n_def b_def)
    have again: "beautify_lines last_level (b # beautify_lines (int n) ls) =
        (if n = 0 \<and> last_level \<noteq> - 1 then [[]] else []) @ b # beautify_lines (int n) ls"
      using beautify_lines_Cons [OF b_ne, of last_level "beautify_lines (int n) ls"] b i IH
      by (simp add: b_def)
    show ?thesis
    proof (cases "n = 0 \<and> last_level \<noteq> - 1")
      case True
      with first again beautify_lines_blank [of last_level "b # beautify_lines (int n) ls"]
      show ?thesis by (simp del: beautify_lines.simps)
    next
      case False
      with first again show ?thesis by (simp del: beautify_lines.simps)
    qed
  qed
qed


lemma beautify_lines_output:
  assumes "\<forall>l\<in>set ls. \<forall>x\<in>set l. \<not> is_linebreak x"
  shows "(\<forall>l\<in>set (beautify_lines last_level ls). \<forall>x\<in>set l. \<not> is_linebreak x) \<and>
         (beautify_lines last_level ls \<noteq> [] \<longrightarrow> last (beautify_lines last_level ls) \<noteq> [])"
  using assms
proof (induction ls arbitrary: last_level)
  case Nil
  then show ?case by simp
next
  case (Cons l ls)
  show ?case
  proof (cases "strip l = []")
    case True
    with Cons show ?thesis by simp
  next
    case False
    from Cons.prems have "\<forall>x\<in>set l. \<not> is_linebreak x" by simp
    from strip_tidy [OF False this] have "tidy (strip l)" .
    from respace_tidy [OF this] have t: "tidy (respace (strip l))" by simp
    define n where "n = indent_of l div 4"
    define b where "b = replicate (n * 4) (CHR '' '') @ respace (strip l)"
    define E where "E = beautify_lines (int n) ls"
    from indented_tidy(4) [OF t, of "n * 4"] have b: "\<forall>x\<in>set b. \<not> is_linebreak x"
      by (simp add: b_def)
    from t have b_ne: "b \<noteq> []" by (simp add: b_def tidy_def)
    from Cons.prems have "\<forall>l\<in>set ls. \<forall>x\<in>set l. \<not> is_linebreak x" by simp
    from Cons.IH [OF this, of "int n"] have IH:
      "\<forall>l\<in>set E. \<forall>x\<in>set l. \<not> is_linebreak x" "E \<noteq> [] \<longrightarrow> last E \<noteq> []"
      by (simp_all add: E_def)
    have first: "beautify_lines last_level (l # ls) =
        (if n = 0 \<and> last_level \<noteq> - 1 then [[]] else []) @ b # E"
      using beautify_lines_Cons [OF False] by (simp add: n_def b_def E_def)
    from b IH(1) have "\<forall>l\<in>set ((if n = 0 \<and> last_level \<noteq> - 1 then [[]] else []) @ b # E).
        \<forall>x\<in>set l. \<not> is_linebreak x" by auto
    moreover from b_ne IH(2)
    have "last ((if n = 0 \<and> last_level \<noteq> - 1 then [[]] else []) @ b # E) \<noteq> []" by simp
    ultimately show ?thesis by (simp only: first) simp
  qed
qed

lemma splitlines_single:
  assumes "x \<noteq> []" and "\<forall>c\<in>set x. \<not> is_linebreak c"
  shows "splitlines x = [x]"
proof -
  from assms(1) obtain c cs where x: "x = c # cs" by (cases x) auto
  from assms(2) have "takeWhile (\<lambda>c. \<not> is_linebreak c) x = x"
    "dropWhile (\<lambda>c. \<not> is_linebreak c) x = []" by simp_all
  then show ?thesis unfolding x by (simp only: splitlines.simps list.case)
qed

lemma splitlines_line_feed:
  assumes "\<forall>c\<in>set x. \<not> is_linebreak c"
  shows "splitlines (x @ CHR 0x0A # rest) = x # splitlines rest"
proof -
  obtain c cs where s: "x @ CHR 0x0A # rest = c # cs" by (cases x) auto
  have t: "takeWhile (\<lambda>c. \<not> is_linebreak c) (x @ CHR 0x0A # rest) = x"
    using assms by (simp add: takeWhile_append2 linefeed_is_linebreak)
  have d: "dropWhile (\<lambda>c. \<not> is_linebreak c) (x @ CHR 0x0A # rest) = CHR 0x0A # rest"
    using assms by (simp add: dropWhile_append2 linefeed_is_linebreak)
  have "splitlines (c # cs) =
      takeWhile (\<lambda>x. \<not> is_linebreak x) (c # cs) #
       (case dropWhile (\<lambda>x. \<not> is_linebreak x) (c # cs) of
          [] \<Rightarrow> []
        | b # bs \<Rightarrow>
            (case bs of
               [] \<Rightarrow> []
             | d # ds \<Rightarrow> if b = CHR 0x0D \<and> d = CHR 0x0A then splitlines ds else splitlines bs))"
    by (rule splitlines.simps(2))
  then have "splitlines (x @ CHR 0x0A # rest) =
      x # (case CHR 0x0A # rest of
          [] \<Rightarrow> []
        | b # bs \<Rightarrow>
            (case bs of
               [] \<Rightarrow> []
             | d # ds \<Rightarrow> if b = CHR 0x0D \<and> d = CHR 0x0A then splitlines ds else splitlines bs))"
    by (simp only: s [symmetric] t d)
  then show ?thesis by (cases rest) (simp_all add: splitlines.simps(1))
qed

lemma join_line_feed_Cons: "join ''\<newline>'' (x # y # ys) = x @ CHR 0x0A # join ''\<newline>'' (y # ys)"
  by simp

lemma splitlines_join:
  assumes "\<forall>l\<in>set ls. \<forall>x\<in>set l. \<not> is_linebreak x" and "ls \<noteq> [] \<longrightarrow> last ls \<noteq> []"
  shows "splitlines (join ''\<newline>'' ls) = ls"
  using assms
proof (induction ls)
  case Nil
  then show ?case by (simp add: splitlines.simps(1))
next
  case (Cons x ls)
  from Cons.prems have x: "\<forall>c\<in>set x. \<not> is_linebreak c" by simp
  show ?case
  proof (cases ls)
    case Nil
    with Cons.prems x show ?thesis by (simp add: splitlines_single)
  next
    case (Cons y ys)
    with Cons.prems have "splitlines (join ''\<newline>'' ls) = ls"
      by (intro Cons.IH) simp_all
    with splitlines_line_feed [OF x] Cons show ?thesis
      by (simp only: join_line_feed_Cons)
  qed
qed


lemma beautify_loop_fixpoint:
  "beautify_lines (- 1) (splitlines (join ''\<newline>'' (beautify_lines (- 1) (splitlines t)))) =
     beautify_lines (- 1) (splitlines t)"
proof -
  have nb: "\<forall>l\<in>set (splitlines t). \<forall>x\<in>set l. \<not> is_linebreak x"
    using splitlines_no_linebreak by blast
  from beautify_lines_output [OF nb, of "- 1"]
  have "splitlines (join ''\<newline>'' (beautify_lines (- 1) (splitlines t))) =
      beautify_lines (- 1) (splitlines t)"
    by (intro splitlines_join) simp_all
  with beautify_lines_idem [OF nb, of "- 1"] show ?thesis by simp
qed

text \<open>
  Claim C6. \<open>beautify_outline\<close> is idempotent: beautifying its result gives the
  result again, for every text. And a text for which \<open>is_beautified\<close> is true is
  returned as it is, character for character.
\<close>

theorem beautify_outline_idempotent:
  "beautify_outline (beautify_outline t) = beautify_outline t \<and>
   (is_beautified t \<longrightarrow> beautify_outline t = t)"
proof
  show "beautify_outline (beautify_outline t) = beautify_outline t"
  proof (cases "is_beautified t")
    case True
    then show ?thesis by (simp add: beautify_outline_def)
  next
    case False
    define out where "out = join ''\<newline>'' (beautify_lines (- 1) (splitlines t))"
    from False have 1: "beautify_outline t = out" by (simp add: beautify_outline_def out_def)
    have "join ''\<newline>'' (beautify_lines (- 1) (splitlines out)) = out"
      unfolding out_def by (simp only: beautify_loop_fixpoint)
    then have "beautify_outline out = out" by (simp add: beautify_outline_def)
    with 1 show ?thesis by simp
  qed
  show "is_beautified t \<longrightarrow> beautify_outline t = t" by (simp add: beautify_outline_def)
qed

text \<open>
  Claim C6 on a text that is beautified already, which is returned unchanged, and on a
  text with loose spacing, whose result is a fixed point.
\<close>

theorem beautify_outline_idempotent_witness:
  "is_beautified ''Chapter 1\<newline>    Section 12'' \<and>
   beautify_outline ''Chapter 1\<newline>    Section 12'' = ''Chapter 1\<newline>    Section 12'' \<and>
   beautify_outline ''Chapter   1\<newline>      Section  12\<newline>Index 40'' =
     ''Chapter 1\<newline>    Section 12\<newline>\<newline>Index 40'' \<and>
   beautify_outline ''Chapter 1\<newline>    Section 12\<newline>\<newline>Index 40'' =
     ''Chapter 1\<newline>    Section 12\<newline>\<newline>Index 40''"
proof -
  have b: "is_beautified ''Chapter 1\<newline>    Section 12''" by code_simp
  have r: "beautify_outline ''Chapter   1\<newline>      Section  12\<newline>Index 40'' =
     ''Chapter 1\<newline>    Section 12\<newline>\<newline>Index 40''" by code_simp
  from beautify_outline_idempotent [of "''Chapter 1\<newline>    Section 12''"] b
  have "beautify_outline ''Chapter 1\<newline>    Section 12'' = ''Chapter 1\<newline>    Section 12''"
    by blast
  moreover from beautify_outline_idempotent [of "''Chapter   1\<newline>      Section  12\<newline>Index 40''"]
  have "beautify_outline ''Chapter 1\<newline>    Section 12\<newline>\<newline>Index 40'' =
     ''Chapter 1\<newline>    Section 12\<newline>\<newline>Index 40''"
    by (simp only: r)
  ultimately show ?thesis using b r by blast
qed


section \<open>Page-number tokens: proofs\<close>

lemma separator_char_not_numeral: "is_separator_char c \<Longrightarrow> \<not> is_numeral_char c"
  by (auto simp: is_separator_char_def is_numeral_char_def is_dot_dash_space_def isspace_def
      is_decimal_def is_roman_capital_def)

lemma numeral_char_not_space: "is_numeral_char c \<Longrightarrow> \<not> isspace c"
  by (auto simp: is_numeral_char_def isspace_def is_decimal_def is_roman_capital_def)

lemma numeral_token_chars: "is_numeral_token tok \<Longrightarrow> list_all is_numeral_char tok"
  by (auto simp: is_numeral_token_def is_numeral_char_def list_all_iff)

lemma separator_chars: "is_separator sep \<Longrightarrow> sep \<noteq> [] \<and> list_all is_separator_char sep"
  by (auto simp: is_separator_def is_separator_char_def list_all_iff)

lemma rev_run_split:
  assumes "list_all P r" and "\<not> P w"
  shows "takeWhile P (rev (p @ w # r)) = rev r"
proof -
  have r: "\<And>x. x \<in> set (rev r) \<Longrightarrow> P x"
    using assms(1) by (simp add: list_all_iff)
  have e: "rev (p @ w # r) = rev r @ w # rev p" by simp
  have "takeWhile P (rev r @ w # rev p) = rev r @ takeWhile P (w # rev p)"
    by (rule takeWhile_append2) (rule r)
  with assms(2) show ?thesis
    by (simp only: e takeWhile.simps if_False append_Nil2)
qed

text \<open>The trailing run of numeral characters of a text is determined by the text.\<close>

lemma trailing_token_unique:
  assumes "a @ tok = b @ tok'"
    and "a \<noteq> []" "\<not> is_numeral_char (last a)" "list_all is_numeral_char tok"
    and "b \<noteq> []" "\<not> is_numeral_char (last b)" "list_all is_numeral_char tok'"
  shows "tok = tok' \<and> a = b"
proof -
  from assms(2) have a: "a = butlast a @ [last a]" by simp
  from assms(5) have b: "b = butlast b @ [last b]" by simp
  have "takeWhile is_numeral_char (rev (butlast a @ last a # tok)) = rev tok"
    using assms(4,3) by (rule rev_run_split)
  moreover have "takeWhile is_numeral_char (rev (butlast b @ last b # tok')) = rev tok'"
    using assms(7,6) by (rule rev_run_split)
  moreover have "butlast a @ last a # tok = a @ tok" using a by (metis append.assoc append_Cons append_Nil)
  moreover have "butlast b @ last b # tok' = b @ tok'" using b by (metis append.assoc append_Cons append_Nil)
  ultimately have "rev tok = rev tok'" using assms(1) by simp
  then have "tok = tok'" by simp
  with assms(1) show ?thesis by simp
qed


lemma rmatch_Cls_memD:
  "(g', s') \<in> set (rmatch (Cls P) (g, s)) \<Longrightarrow> \<exists>c. s = c # s' \<and> P c \<and> g' = g"
  by (cases s) (auto simp: rmatch.simps split: if_splits)

lemma rmatch_Alt_memD:
  "x \<in> set (rmatch (Alt a b) st) \<Longrightarrow> x \<in> set (rmatch a st) \<or> x \<in> set (rmatch b st)"
  by (auto simp: rmatch.simps)

lemma rmatch_Seq_memI:
  "y \<in> set (rmatch a st) \<Longrightarrow> x \<in> set (rmatch b y) \<Longrightarrow> x \<in> set (rmatch (Seq a b) st)"
  by (auto simp: rmatch.simps)

lemma rmatch_Alt_memI1: "x \<in> set (rmatch a st) \<Longrightarrow> x \<in> set (rmatch (Alt a b) st)"
  by (simp add: rmatch.simps)

lemma rmatch_Alt_memI2: "x \<in> set (rmatch b st) \<Longrightarrow> x \<in> set (rmatch (Alt a b) st)"
  by (simp add: rmatch.simps)

lemma rmatch_Grp_memI:
  "(g', s') \<in> set (rmatch r (g, s)) \<Longrightarrow>
     (g'(i \<mapsto> take (length s - length s') s), s') \<in> set (rmatch (Grp i r) (g, s))"
  by (force simp: rmatch.simps)

lemma rmatch_Rep_memI:
  assumes "list_all P xs" and "n \<le> length xs"
  shows "(g, ys) \<in> set (rmatch (Rep n P) (g, xs @ ys))"
proof -
  from assms(1) have "takeWhile P (xs @ ys) = xs @ takeWhile P ys"
    by (intro takeWhile_append2) (simp add: list_all_iff)
  then have "length xs \<le> length (takeWhile P (xs @ ys))" by simp
  with assms(2) show ?thesis unfolding rmatch_Rep_mem by (intro conjI refl exI [of _ "length xs"]) simp_all
qed

lemma rmatch_Cls_memI: "P c \<Longrightarrow> (g, s) \<in> set (rmatch (Cls P) (g, c # s))"
  by (simp add: rmatch.simps)

lemma rmatch_Eol_memI: "(g, []) \<in> set (rmatch Eol (g, []))"
  by (simp add: rmatch.simps)

lemma numeral_group_memI:
  assumes "is_numeral_token tok"
  shows "(g(i \<mapsto> tok), s') \<in> set (rmatch (numeral_group i) (g, tok @ s'))"
proof -
  from assms have ne: "1 \<le> length tok" by (cases tok) (auto simp: is_numeral_token_def)
  from assms consider "list_all is_decimal tok" | "list_all is_roman_capital tok"
    by (auto simp: is_numeral_token_def)
  then have "(g, s') \<in> set (rmatch (Alt (Rep 1 is_decimal) (Rep 1 is_roman_capital)) (g, tok @ s'))"
  proof cases
    case 1
    from rmatch_Rep_memI [OF 1 ne] show ?thesis by (rule rmatch_Alt_memI1)
  next
    case 2
    from rmatch_Rep_memI [OF 2 ne] show ?thesis by (rule rmatch_Alt_memI2)
  qed
  from rmatch_Grp_memI [OF this, of i] show ?thesis by (simp add: numeral_group_def)
qed

lemma spaces_end_memI:
  "(g, []) \<in> set (rmatch (Seq (Rep 0 isspace) Eol) (g, []))"
proof -
  have "(g, []) \<in> set (rmatch (Rep 0 isspace) (g, [] @ []))"
    by (rule rmatch_Rep_memI) simp_all
  then show ?thesis using rmatch_Eol_memI by (intro rmatch_Seq_memI [where y = "(g, [])"]) simp_all
qed

lemma separator_group_memI:
  assumes "is_separator sep"
  shows "\<exists>g'. (g', rest) \<in> set (rmatch
      (Grp 1 (Alt (Rep 3 is_dot_dash_space) (Alt (Cls (\<lambda>c. c = CHR ''('')) (Cls isspace))))
      (g, sep @ rest))"
proof -
  let ?A = "Alt (Rep 3 is_dot_dash_space) (Alt (Cls (\<lambda>c. c = CHR ''('')) (Cls isspace))"
  from assms consider "3 \<le> length sep" "list_all is_dot_dash_space sep" | "sep = ''(''"
    | w where "sep = [w]" "isspace w"
    by (cases sep) (auto simp: is_separator_def)
  then have "(g, rest) \<in> set (rmatch ?A (g, sep @ rest))"
  proof cases
    case 1
    from rmatch_Rep_memI [OF 1(2,1)] show ?thesis by (rule rmatch_Alt_memI1)
  next
    case 2
    have "(g, rest) \<in> set (rmatch (Cls (\<lambda>c. c = CHR ''('')) (g, CHR ''('' # rest))"
      by (rule rmatch_Cls_memI) simp
    with 2 show ?thesis by (auto intro: rmatch_Alt_memI1 rmatch_Alt_memI2)
  next
    case 3
    from 3(2) have "(g, rest) \<in> set (rmatch (Cls isspace) (g, w # rest))"
      by (rule rmatch_Cls_memI)
    with 3(1) show ?thesis by (auto intro: rmatch_Alt_memI1 rmatch_Alt_memI2)
  qed
  from rmatch_Grp_memI [OF this, of 1] show ?thesis by blast
qed

lemma page_number_re_match:
  assumes "is_separator sep" and "is_numeral_token tok"
  shows "rmatch page_number_re (g, sep @ tok) \<noteq> []"
proof -
  from separator_group_memI [OF assms(1), of tok g] obtain g1 where
    1: "(g1, tok) \<in> set (rmatch
      (Grp 1 (Alt (Rep 3 is_dot_dash_space) (Alt (Cls (\<lambda>c. c = CHR ''('')) (Cls isspace))))
      (g, sep @ tok))" by blast
  from numeral_group_memI [OF assms(2), of g1 2 "[]"]
  have 2: "(g1(2 \<mapsto> tok), []) \<in> set (rmatch (numeral_group 2) (g1, tok))" by simp
  from rmatch_Seq_memI [OF 2 spaces_end_memI]
  have "(g1(2 \<mapsto> tok), []) \<in> set (rmatch (Seq (numeral_group 2) (Seq (Rep 0 isspace) Eol)) (g1, tok))" .
  from rmatch_Seq_memI [OF 1 this]
  have "(g1(2 \<mapsto> tok), []) \<in> set (rmatch page_number_re (g, sep @ tok))"
    by (simp only: page_number_re_def)
  then show ?thesis by auto
qed

lemma spaced_number_re_match:
  assumes "ws \<noteq> []" and "list_all isspace ws" and "is_numeral_token tok"
  shows "rmatch spaced_number_re (g, ws @ tok) \<noteq> []"
proof -
  from assms(1) have "1 \<le> length ws" by (cases ws) auto
  from rmatch_Rep_memI [OF assms(2) this]
  have 1: "(g, tok) \<in> set (rmatch (Rep 1 isspace) (g, ws @ tok))" .
  from numeral_group_memI [OF assms(3), of g 1 "[]"]
  have 2: "(g(1 \<mapsto> tok), []) \<in> set (rmatch (numeral_group 1) (g, tok))" by simp
  from rmatch_Seq_memI [OF 2 spaces_end_memI]
  have "(g(1 \<mapsto> tok), []) \<in> set (rmatch (Seq (numeral_group 1) (Seq (Rep 0 isspace) Eol)) (g, tok))" .
  from rmatch_Seq_memI [OF 1 this]
  have "(g(1 \<mapsto> tok), []) \<in> set (rmatch spaced_number_re (g, ws @ tok))"
    by (simp only: spaced_number_re_def)
  then show ?thesis by auto
qed

lemma page_match_re_match:
  assumes "ws \<noteq> []" and "list_all isspace ws" and "is_numeral_token tok"
  shows "rmatch page_match_re (g, ws @ tok) \<noteq> []"
proof -
  from assms(1) have "1 \<le> length ws" by (cases ws) auto
  from rmatch_Rep_memI [OF assms(2) this]
  have 1: "(g, tok) \<in> set (rmatch (Rep 1 isspace) (g, ws @ tok))" .
  from numeral_group_memI [OF assms(3), of g 1 "[]"]
  have 2: "(g(1 \<mapsto> tok), []) \<in> set (rmatch (numeral_group 1) (g, tok))" by simp
  from rmatch_Seq_memI [OF 2 rmatch_Eol_memI]
  have "(g(1 \<mapsto> tok), []) \<in> set (rmatch (Seq (numeral_group 1) Eol) (g, tok))" .
  from rmatch_Seq_memI [OF 1 this]
  have "(g(1 \<mapsto> tok), []) \<in> set (rmatch page_match_re (g, ws @ tok))"
    by (simp only: page_match_re_def)
  then show ?thesis by auto
qed

lemma numeral_tail_memD:
  assumes "(g', s') \<in> set (rmatch (Seq (numeral_group i) (Seq (Rep 0 isspace) Eol)) (g, s))"
  shows "\<exists>tok ws. s = tok @ ws @ s' \<and> is_numeral_token tok \<and> g' = g(i \<mapsto> tok) \<and>
           list_all isspace ws \<and> (s' = [] \<or> s' = [CHR 0x0A])"
proof -
  from rmatch_Seq_memD [OF assms] obtain g1 s1 where
    1: "(g1, s1) \<in> set (rmatch (numeral_group i) (g, s))" and
    r: "(g', s') \<in> set (rmatch (Seq (Rep 0 isspace) Eol) (g1, s1))" by auto
  from rmatch_Seq_memD [OF r] obtain g2 s2 where
    2: "(g2, s2) \<in> set (rmatch (Rep 0 isspace) (g1, s1))" and
    3: "(g', s') \<in> set (rmatch Eol (g2, s2))" by auto
  from numeral_group_memD [OF 1] obtain tok where tok: "tok \<noteq> []"
    "list_all is_decimal tok \<or> list_all is_roman_capital tok" "g1 = g(i \<mapsto> tok)" "s = tok @ s1"
    by blast
  from rmatch_Rep_memD [OF 2] obtain ws where ws: "s1 = ws @ s2" "list_all isspace ws" "g2 = g1"
    by blast
  from rmatch_Eol_memD [OF 3] have e: "g' = g2" "s' = s2" "s2 = [] \<or> s2 = [CHR 0x0A]" by auto
  from tok ws e show ?thesis
    by (intro exI [of _ tok] exI [of _ ws]) (auto simp: is_numeral_token_def)
qed

lemma page_number_re_memD:
  assumes "(g', s') \<in> set (rmatch page_number_re (g, s))"
  shows "\<exists>g1 tok ws. s = g1 @ tok @ ws @ s' \<and> g1 \<noteq> [] \<and> list_all is_separator_char g1 \<and>
           is_numeral_token tok \<and> g' 2 = Some tok \<and> list_all isspace ws \<and>
           (s' = [] \<or> s' = [CHR 0x0A])"
proof -
  let ?A = "Alt (Rep 3 is_dot_dash_space) (Alt (Cls (\<lambda>c. c = CHR ''('')) (Cls isspace))"
  from rmatch_Seq_memD [OF assms [unfolded page_number_re_def]] obtain ga sa where
    1: "(ga, sa) \<in> set (rmatch (Grp 1 ?A) (g, s))" and
    2: "(g', s') \<in> set (rmatch (Seq (numeral_group 2) (Seq (Rep 0 isspace) Eol)) (ga, sa))"
    by auto
  from rmatch_Grp_memD [OF 1] obtain gb where gb: "(gb, sa) \<in> set (rmatch ?A (g, s))" by blast
  have "\<exists>g1. s = g1 @ sa \<and> g1 \<noteq> [] \<and> list_all is_separator_char g1"
  proof -
    from rmatch_Alt_memD [OF gb] consider
      "(gb, sa) \<in> set (rmatch (Rep 3 is_dot_dash_space) (g, s))"
      | "(gb, sa) \<in> set (rmatch (Alt (Cls (\<lambda>c. c = CHR ''('')) (Cls isspace)) (g, s))" by blast
    then show ?thesis
    proof cases
      case 1
      from rmatch_Rep_memD [OF 1] obtain xs where "s = xs @ sa" "3 \<le> length xs"
        "list_all is_dot_dash_space xs" by blast
      then show ?thesis
        by (intro exI [of _ xs]) (auto simp: is_separator_char_def list_all_iff)
    next
      case 2
      from rmatch_Alt_memD [OF 2] consider
        "(gb, sa) \<in> set (rmatch (Cls (\<lambda>c. c = CHR ''('')) (g, s))"
        | "(gb, sa) \<in> set (rmatch (Cls isspace) (g, s))" by blast
      then show ?thesis
      proof cases
        case 1
        from rmatch_Cls_memD [OF 1] have "s = CHR ''('' # sa" by auto
        then show ?thesis
          by (intro exI [of _ "''(''"]) (simp add: is_separator_char_def)
      next
        case 2
        from rmatch_Cls_memD [OF 2] obtain c where "s = c # sa" "isspace c" by auto
        then show ?thesis
          by (intro exI [of _ "[c]"]) (simp add: is_separator_char_def)
      qed
    qed
  qed
  then obtain g1 where g1: "s = g1 @ sa" "g1 \<noteq> []" "list_all is_separator_char g1" by blast
  from numeral_tail_memD [OF 2] obtain tok ws where t: "sa = tok @ ws @ s'" "is_numeral_token tok"
    "g' = ga(2 \<mapsto> tok)" "list_all isspace ws" "s' = [] \<or> s' = [CHR 0x0A]" by blast
  from g1 t show ?thesis
    by (intro exI [of _ g1] exI [of _ tok] exI [of _ ws]) simp
qed

lemma spaced_number_re_memD:
  assumes "(g', s') \<in> set (rmatch spaced_number_re (g, s))"
  shows "\<exists>g1 tok ws. s = g1 @ tok @ ws @ s' \<and> g1 \<noteq> [] \<and> list_all isspace g1 \<and>
           is_numeral_token tok \<and> g' 1 = Some tok \<and> list_all isspace ws \<and>
           (s' = [] \<or> s' = [CHR 0x0A])"
proof -
  from rmatch_Seq_memD [OF assms [unfolded spaced_number_re_def]] obtain ga sa where
    1: "(ga, sa) \<in> set (rmatch (Rep 1 isspace) (g, s))" and
    2: "(g', s') \<in> set (rmatch (Seq (numeral_group 1) (Seq (Rep 0 isspace) Eol)) (ga, sa))"
    by auto
  from rmatch_Rep_memD [OF 1] obtain g1 where g1: "s = g1 @ sa" "1 \<le> length g1"
    "list_all isspace g1" by blast
  from numeral_tail_memD [OF 2] obtain tok ws where t: "sa = tok @ ws @ s'" "is_numeral_token tok"
    "g' = ga(1 \<mapsto> tok)" "list_all isspace ws" "s' = [] \<or> s' = [CHR 0x0A]" by blast
  from g1(2) have "g1 \<noteq> []" by auto
  with g1 t show ?thesis
    by (intro exI [of _ g1] exI [of _ tok] exI [of _ ws]) simp
qed

text \<open>
  A match that ends a text which itself ends in a token after a character that is no
  numeral character: the match ends with that very token.
\<close>

lemma match_ends_in_token:
  assumes c: "content = a @ tok" "a \<noteq> []" "\<not> is_numeral_char (last a)" "is_numeral_token tok"
    and nl: "CHR 0x0A \<notin> set content"
    and m: "drop p content = g1 @ tok' @ ws @ s'" "g1 \<noteq> []" "\<not> is_numeral_char (last g1)"
      "is_numeral_token tok'" "list_all isspace ws" "s' = [] \<or> s' = [CHR 0x0A]"
  shows "s' = [] \<and> ws = [] \<and> tok' = tok \<and> take p content @ g1 = a"
proof -
  define pre where "pre = take p content"
  have "take p content @ drop p content = content" by (rule append_take_drop_id)
  with m(1) have split: "content = pre @ g1 @ tok' @ ws @ s'" by (simp add: pre_def)
  have s': "s' = []"
  proof (rule ccontr)
    assume "s' \<noteq> []"
    with m(6) have "CHR 0x0A \<in> set (pre @ g1 @ tok' @ ws @ s')" by simp
    with split nl show False by simp
  qed
  from c(4) have tok_ne: "tok \<noteq> []" by (simp add: is_numeral_token_def)
  from c(4) have "list_all is_numeral_char tok" by (rule numeral_token_chars)
  with tok_ne have "is_numeral_char (last tok)" by (simp add: list_all_iff)
  with c(1) tok_ne have last_c: "\<not> isspace (last content)"
    by (simp add: numeral_char_not_space)
  have ws: "ws = []"
  proof (rule ccontr)
    assume ne: "ws \<noteq> []"
    with split s' have "last content = last ws" by simp
    moreover from ne m(5) have "isspace (last ws)" by (simp add: list_all_iff)
    ultimately show False using last_c by simp
  qed
  from split s' ws c(1) have e: "a @ tok = (pre @ g1) @ tok'" by simp
  from m(2) have 1: "pre @ g1 \<noteq> []" "last (pre @ g1) = last g1" by simp_all
  from m(3) 1(2) have 2: "\<not> is_numeral_char (last (pre @ g1))" by simp
  from trailing_token_unique [OF e c(2,3) numeral_token_chars [OF c(4)] 1(1) 2
      numeral_token_chars [OF m(4)]]
  have "tok = tok' \<and> a = pre @ g1" .
  with s' ws show ?thesis by (simp add: pre_def)
qed


declare re_sub.simps [simp del]

lemma re_sub_to_end:
  assumes "re_search r s = Some m" and "m_rest m = []" and "s \<noteq> []" and "re_search r [] = None"
  shows "re_sub r repl s = take (m_start m) s @ repl m"
proof -
  have "re_sub r repl [] = []" using assms(4) by (subst re_sub.simps) simp
  with assms(1-3) show ?thesis by (subst re_sub.simps) simp
qed

lemma re_search_SomeD:
  assumes "re_search r s = Some m"
  shows "m_start m \<le> length s \<and>
         (m_groups m, m_rest m) \<in> set (rmatch r (Map.empty, drop (m_start m) s)) \<and>
         (\<forall>j<m_start m. rmatch r (Map.empty, drop j s) = [])"
proof -
  from search_from_SomeD [OF assms [unfolded re_search_def]] obtain k rest where
    "k \<le> length s" "m_start m = k"
    "rmatch r (Map.empty, drop k s) = (m_groups m, m_rest m) # rest"
    "\<forall>j<k. rmatch r (Map.empty, drop j s) = []" by auto
  then show ?thesis by simp
qed

lemma re_search_found:
  assumes "k \<le> length s" and "rmatch r (Map.empty, drop k s) \<noteq> []"
  shows "\<exists>m. re_search r s = Some m \<and> m_start m \<le> k"
proof -
  from assms have "re_search r s \<noteq> None" by (auto simp: re_search_None_iff)
  then obtain m where m: "re_search r s = Some m" by auto
  from re_search_SomeD [OF m] assms(2) have "\<not> k < m_start m" by auto
  with m show ?thesis by auto
qed

text \<open>
  The leftmost match of a pattern in a text that ends in a token, for a pattern whose
  matches are a run of characters that are no numeral characters, a token, white space
  and the end: the match runs to the end of the text and its group is the token.
\<close>

lemma search_ends_in_token:
  assumes c: "content = a @ tok" "a \<noteq> []" "\<not> is_numeral_char (last a)" "is_numeral_token tok"
    and nl: "CHR 0x0A \<notin> set content"
    and Q: "\<And>x. Q x \<Longrightarrow> \<not> is_numeral_char x"
    and sound: "\<And>g' s' k. (g', s') \<in> set (rmatch r (Map.empty, drop k content)) \<Longrightarrow>
      \<exists>g1 tok' ws. drop k content = g1 @ tok' @ ws @ s' \<and> g1 \<noteq> [] \<and>
        list_all Q g1 \<and> is_numeral_token tok' \<and> g' i = Some tok' \<and>
        list_all isspace ws \<and> (s' = [] \<or> s' = [CHR 0x0A])"
    and m: "re_search r content = Some m"
  shows "m_rest m = [] \<and> group m i = tok \<and>
         (\<exists>g1. g1 \<noteq> [] \<and> list_all Q g1 \<and> take (m_start m) content @ g1 = a \<and>
            drop (m_start m) content = g1 @ tok)"
proof -
  from re_search_SomeD [OF m]
  have mem: "(m_groups m, m_rest m) \<in> set (rmatch r (Map.empty, drop (m_start m) content))"
    by simp
  from sound [OF mem] obtain g1 tok' ws where
    d: "drop (m_start m) content = g1 @ tok' @ ws @ m_rest m" "g1 \<noteq> []"
      "list_all Q g1" "is_numeral_token tok'" "m_groups m i = Some tok'"
      "list_all isspace ws" "m_rest m = [] \<or> m_rest m = [CHR 0x0A]" by blast
  from d(2,3) have "Q (last g1)" by (simp add: list_all_iff)
  then have "\<not> is_numeral_char (last g1)" by (rule Q)
  from match_ends_in_token [OF c nl d(1,2) this d(4,6,7)]
  have e: "m_rest m = []" "ws = []" "tok' = tok" "take (m_start m) content @ g1 = a" by simp_all
  from d(5) e(3) have "group m i = tok" by (simp add: group_def)
  moreover from d(1) e have "drop (m_start m) content = g1 @ tok" by simp
  ultimately show ?thesis using e(1,4) d(2,3) by blast
qed

lemma linefeed_not_numeral: "\<not> is_numeral_char (CHR 0x0A)"
  by (simp add: is_numeral_char_def is_decimal_def is_roman_capital_def)

lemma token_no_linefeed: "is_numeral_token tok \<Longrightarrow> CHR 0x0A \<notin> set tok"
  using numeral_token_chars [of tok] linefeed_not_numeral by (auto simp: list_all_iff)

lemma space_not_numeral: "isspace x \<Longrightarrow> \<not> is_numeral_char x"
  using numeral_char_not_space by blast

lemma first_sub:
  assumes sep: "is_separator sep" and tok: "is_numeral_token tok"
    and pre: "pre \<noteq> []" "\<not> is_separator_char (hd pre)"
    and nl: "CHR 0x0A \<notin> set (pre @ sep)"
  shows "has_page_number (pre @ sep @ tok) \<and>
         (\<exists>u. u \<noteq> [] \<and> (\<exists>r. pre = u @ r) \<and>
            re_sub page_number_re (\<lambda>m. '' '' @ group m 2) (pre @ sep @ tok) = u @ '' '' @ tok)"
proof -
  define content where "content = pre @ sep @ tok"
  define a where "a = pre @ sep"
  from separator_chars [OF sep] have sepc: "sep \<noteq> []" "list_all is_separator_char sep" by simp_all
  have c: "content = a @ tok" by (simp add: content_def a_def)
  have a: "a \<noteq> []" using pre by (simp add: a_def)
  from sepc have "is_separator_char (last sep)" by (simp add: list_all_iff)
  with sepc(1) have la: "\<not> is_numeral_char (last a)"
    by (simp add: a_def separator_char_not_numeral)
  from nl token_no_linefeed [OF tok] have nlc: "CHR 0x0A \<notin> set content"
    by (simp add: content_def)
  have hd_c: "hd content = hd pre" using pre by (simp add: content_def)
  have sound: "\<exists>g1 tok' ws. drop k content = g1 @ tok' @ ws @ s' \<and> g1 \<noteq> [] \<and>
        list_all is_separator_char g1 \<and> is_numeral_token tok' \<and> g' 2 = Some tok' \<and>
        list_all isspace ws \<and> (s' = [] \<or> s' = [CHR 0x0A])"
    if "(g', s') \<in> set (rmatch page_number_re (Map.empty, drop k content))" for g' s' k
    using page_number_re_memD [OF that] .
  have "drop (length pre) content = sep @ tok" by (simp add: content_def)
  with page_number_re_match [OF sep tok, of Map.empty]
  have "rmatch page_number_re (Map.empty, drop (length pre) content) \<noteq> []" by simp
  moreover have "length pre \<le> length content" by (simp add: content_def)
  ultimately obtain m where m: "re_search page_number_re content = Some m"
    "m_start m \<le> length pre" using re_search_found by blast
  then have has: "has_page_number content" by (simp add: has_page_number_def)
  have "m_rest m = [] \<and> group m 2 = tok \<and>
         (\<exists>g1. g1 \<noteq> [] \<and> list_all is_separator_char g1 \<and> take (m_start m) content @ g1 = a \<and>
            drop (m_start m) content = g1 @ tok)"
  proof (rule search_ends_in_token [where Q = is_separator_char and r = page_number_re,
        OF c a la tok nlc _ _ m(1)])
    show "\<not> is_numeral_char x" if "is_separator_char x" for x
      using that by (rule separator_char_not_numeral)
    show "\<exists>g1 tok' ws. drop k content = g1 @ tok' @ ws @ s' \<and> g1 \<noteq> [] \<and>
        list_all is_separator_char g1 \<and> is_numeral_token tok' \<and> g' 2 = Some tok' \<and>
        list_all isspace ws \<and> (s' = [] \<or> s' = [CHR 0x0A])"
      if "(g', s') \<in> set (rmatch page_number_re (Map.empty, drop k content))" for g' s' k
      using that by (rule sound)
  qed
  then obtain g1 where e: "m_rest m = []" "group m 2 = tok" "g1 \<noteq> []" "list_all is_separator_char g1"
    "drop (m_start m) content = g1 @ tok" by blast
  have pos: "0 < m_start m"
  proof (rule ccontr)
    assume "\<not> 0 < m_start m"
    with e(5) have "content = g1 @ tok" by simp
    with e(3) have "hd content = hd g1" by simp
    moreover from e(3,4) have "is_separator_char (hd g1)" by (cases g1) simp_all
    ultimately show False using hd_c pre(2) by simp
  qed
  define u where "u = take (m_start m) pre"
  from pos pre(1) have u_ne: "u \<noteq> []" by (simp add: u_def)
  have u_pre: "pre = u @ drop (m_start m) pre" by (simp add: u_def)
  from m(2) have u_c: "take (m_start m) content = u" by (simp add: u_def content_def)
  have none: "re_search page_number_re [] = None"
  proof -
    have "rmatch page_number_re (Map.empty, []) = []"
    proof (rule ccontr)
      assume "rmatch page_number_re (Map.empty, []) \<noteq> []"
      then obtain g' s' where "(g', s') \<in> set (rmatch page_number_re (Map.empty, []))"
        by (cases "rmatch page_number_re (Map.empty, [])") auto
      from page_number_re_memD [OF this] show False by auto
    qed
    then show ?thesis by (simp add: re_search_None_iff)
  qed
  have "content \<noteq> []" using pre by (simp add: content_def)
  from re_sub_to_end [OF m(1) e(1) this none, of "\<lambda>m. '' '' @ group m 2"] e(2) u_c
  have "re_sub page_number_re (\<lambda>m. '' '' @ group m 2) content = u @ '' '' @ tok" by simp
  with has u_ne u_pre show ?thesis unfolding content_def by blast
qed


lemma spaces_suffix_unique:
  assumes "t @ [c] = a @ ws" and "t \<noteq> []" and "\<not> isspace (last t)"
    and "ws \<noteq> []" and "list_all isspace ws"
  shows "a = t \<and> ws = [c]"
proof -
  from assms(4) have ws: "ws = butlast ws @ [last ws]" by simp
  with assms(1) have "t @ [c] = (a @ butlast ws) @ [last ws]" by (metis append.assoc)
  then have e: "t = a @ butlast ws" "c = last ws" by simp_all
  have "butlast ws = []"
  proof (rule ccontr)
    assume ne: "butlast ws \<noteq> []"
    with e(1) have "last t = last (butlast ws)" by simp
    moreover from ne have "last (butlast ws) \<in> set (butlast ws)" by simp
    then have "last (butlast ws) \<in> set ws" by (rule in_set_butlastD)
    with assms(5) have "isspace (last (butlast ws))" by (simp add: list_all_iff)
    ultimately show False using assms(3) by simp
  qed
  with e ws show ?thesis by simp
qed

lemma second_sub:
  assumes tok: "is_numeral_token tok"
    and u: "u \<noteq> []" "\<not> isspace (hd u)"
    and nl: "CHR 0x0A \<notin> set u"
  shows "\<exists>t. t \<noteq> [] \<and> (\<exists>r. u = t @ r) \<and> \<not> isspace (last t) \<and>
     re_sub spaced_number_re (\<lambda>m. '' '' @ group m 1) (u @ '' '' @ tok) = t @ '' '' @ tok"
proof -
  define content where "content = u @ '' '' @ tok"
  define a where "a = u @ '' ''"
  have c: "content = a @ tok" by (simp add: content_def a_def)
  have a: "a \<noteq> []" by (simp add: a_def)
  have la: "\<not> is_numeral_char (last a)"
    using space_not_numeral [OF space_is_space] by (simp add: a_def)
  from nl token_no_linefeed [OF tok] have nlc: "CHR 0x0A \<notin> set content"
    by (simp add: content_def)
  have hd_c: "hd content = hd u" using u by (simp add: content_def)
  have "drop (length u) content = '' '' @ tok" by (simp add: content_def)
  moreover have "rmatch spaced_number_re (Map.empty, '' '' @ tok) \<noteq> []"
    by (rule spaced_number_re_match) (simp_all add: space_is_space tok)
  ultimately have "rmatch spaced_number_re (Map.empty, drop (length u) content) \<noteq> []" by simp
  moreover have "length u \<le> length content" by (simp add: content_def)
  ultimately obtain m where m: "re_search spaced_number_re content = Some m"
    "m_start m \<le> length u" using re_search_found by blast
  have "m_rest m = [] \<and> group m 1 = tok \<and>
         (\<exists>g1. g1 \<noteq> [] \<and> list_all isspace g1 \<and> take (m_start m) content @ g1 = a \<and>
            drop (m_start m) content = g1 @ tok)"
  proof (rule search_ends_in_token [where Q = isspace and r = spaced_number_re,
        OF c a la tok nlc _ _ m(1)])
    show "\<not> is_numeral_char x" if "isspace x" for x
      using that by (rule space_not_numeral)
    show "\<exists>g1 tok' ws. drop k content = g1 @ tok' @ ws @ s' \<and> g1 \<noteq> [] \<and>
        list_all isspace g1 \<and> is_numeral_token tok' \<and> g' 1 = Some tok' \<and>
        list_all isspace ws \<and> (s' = [] \<or> s' = [CHR 0x0A])"
      if "(g', s') \<in> set (rmatch spaced_number_re (Map.empty, drop k content))" for g' s' k
      using that by (rule spaced_number_re_memD)
  qed
  then obtain g1 where e: "m_rest m = []" "group m 1 = tok" "g1 \<noteq> []" "list_all isspace g1"
    "drop (m_start m) content = g1 @ tok" by blast
  have pos: "0 < m_start m"
  proof (rule ccontr)
    assume "\<not> 0 < m_start m"
    with e(5) have "content = g1 @ tok" by simp
    with e(3) have "hd content = hd g1" by simp
    moreover from e(3,4) have "isspace (hd g1)" by (cases g1) simp_all
    ultimately show False using hd_c u(2) by simp
  qed
  define t where "t = take (m_start m) u"
  from pos u(1) have t_ne: "t \<noteq> []" by (simp add: t_def)
  have t_u: "u = t @ drop (m_start m) u" by (simp add: t_def)
  from m(2) have t_c: "take (m_start m) content = t" by (simp add: t_def content_def)
  have last_t: "\<not> isspace (last t)"
  proof
    assume sp: "isspace (last t)"
    define j where "j = m_start m - 1"
    from pos have j: "Suc j = m_start m" by (simp add: j_def)
    from m(2) j have jl: "j < length content" by (simp add: content_def)
    from jl have "take (Suc j) content = take j content @ [content ! j]"
      by (rule take_Suc_conv_app_nth)
    with t_c j have "last t = content ! j" by (metis last_snoc)
    moreover from jl have "drop j content = content ! j # drop (Suc j) content"
      by (simp add: Cons_nth_drop_Suc)
    ultimately have "drop j content = (last t # g1) @ tok" using e(5) j by simp
    moreover have "rmatch spaced_number_re (Map.empty, (last t # g1) @ tok) \<noteq> []"
      by (rule spaced_number_re_match) (simp_all add: sp e(4) tok)
    ultimately have "rmatch spaced_number_re (Map.empty, drop j content) \<noteq> []" by simp
    moreover from re_search_SomeD [OF m(1)] j
    have "rmatch spaced_number_re (Map.empty, drop j content) = []" by auto
    ultimately show False by simp
  qed
  have none: "re_search spaced_number_re [] = None"
  proof -
    have "rmatch spaced_number_re (Map.empty, []) = []"
    proof (rule ccontr)
      assume "rmatch spaced_number_re (Map.empty, []) \<noteq> []"
      then obtain g' s' where "(g', s') \<in> set (rmatch spaced_number_re (Map.empty, []))"
        by (cases "rmatch spaced_number_re (Map.empty, [])") auto
      from spaced_number_re_memD [OF this] show False by auto
    qed
    then show ?thesis by (simp add: re_search_None_iff)
  qed
  have "content \<noteq> []" by (simp add: content_def)
  from re_sub_to_end [OF m(1) e(1) this none, of "\<lambda>m. '' '' @ group m 1"] e(2) t_c
  have "re_sub spaced_number_re (\<lambda>m. '' '' @ group m 1) content = t @ '' '' @ tok" by simp
  with t_ne t_u last_t show ?thesis unfolding content_def by blast
qed

lemma page_match_found:
  assumes tok: "is_numeral_token tok"
    and t: "t \<noteq> []" "\<not> isspace (last t)"
    and nl: "CHR 0x0A \<notin> set t"
  shows "\<exists>m. re_search page_match_re (t @ '' '' @ tok) = Some m \<and> m_start m = length t \<and>
           group m 1 = tok"
proof -
  define content where "content = t @ '' '' @ tok"
  define a where "a = t @ '' ''"
  have c: "content = a @ tok" by (simp add: content_def a_def)
  have a: "a \<noteq> []" by (simp add: a_def)
  have la: "\<not> is_numeral_char (last a)"
    using space_not_numeral [OF space_is_space] by (simp add: a_def)
  from nl token_no_linefeed [OF tok] have nlc: "CHR 0x0A \<notin> set content"
    by (simp add: content_def)
  have "drop (length t) content = '' '' @ tok" by (simp add: content_def)
  moreover have "rmatch page_match_re (Map.empty, '' '' @ tok) \<noteq> []"
    by (rule page_match_re_match) (simp_all add: space_is_space tok)
  ultimately have "rmatch page_match_re (Map.empty, drop (length t) content) \<noteq> []" by simp
  moreover have "length t \<le> length content" by (simp add: content_def)
  ultimately obtain m where m: "re_search page_match_re content = Some m"
    "m_start m \<le> length t" using re_search_found by blast
  have "m_rest m = [] \<and> group m 1 = tok \<and>
         (\<exists>g1. g1 \<noteq> [] \<and> list_all isspace g1 \<and> take (m_start m) content @ g1 = a \<and>
            drop (m_start m) content = g1 @ tok)"
  proof (rule search_ends_in_token [where Q = isspace and r = page_match_re,
        OF c a la tok nlc _ _ m(1)])
    show "\<not> is_numeral_char x" if "isspace x" for x
      using that by (rule space_not_numeral)
    show "\<exists>g1 tok' ws. drop k content = g1 @ tok' @ ws @ s' \<and> g1 \<noteq> [] \<and>
        list_all isspace g1 \<and> is_numeral_token tok' \<and> g' 1 = Some tok' \<and>
        list_all isspace ws \<and> (s' = [] \<or> s' = [CHR 0x0A])"
      if mem: "(g', s') \<in> set (rmatch page_match_re (Map.empty, drop k content))" for g' s' k
    proof -
      from page_match_re_memD [OF mem] obtain ws tok' where
        "ws \<noteq> []" "list_all isspace ws" "tok' \<noteq> []"
        "list_all is_decimal tok' \<or> list_all is_roman_capital tok'"
        "g' = Map.empty(1 \<mapsto> tok')" "drop k content = ws @ tok' @ s'"
        "s' = [] \<or> s' = [CHR 0x0A]" by blast
      then show ?thesis
        by (intro exI [of _ ws] exI [of _ tok'] exI [of _ "[]"]) (simp add: is_numeral_token_def)
    qed
  qed
  then obtain g1 where e: "group m 1 = tok" "g1 \<noteq> []" "list_all isspace g1"
    "take (m_start m) content @ g1 = a" by blast
  from e(4) have "t @ [CHR '' ''] = take (m_start m) content @ g1" by (simp add: a_def)
  from spaces_suffix_unique [OF this t e(2,3)] have "take (m_start m) content = t" by simp
  then have "length (take (m_start m) content) = length t" by simp
  with m(2) have "m_start m = length t" by (simp add: content_def)
  with m(1) e(1) show ?thesis unfolding content_def by blast
qed


lemma indented_lstrip:
  assumes "c \<noteq> []" and "\<not> isspace (hd c)"
  shows "lstrip (replicate n (CHR '' '') @ c) = c \<and> indent_of (replicate n (CHR '' '') @ c) = n"
proof -
  have "dropWhile isspace (replicate n (CHR '' '') @ c) = dropWhile isspace c"
    by (rule dropWhile_append2) (simp add: space_is_space)
  with assms have "lstrip (replicate n (CHR '' '') @ c) = c"
    by (cases c) (simp_all add: lstrip_def)
  then show ?thesis by (simp add: indent_of_def)
qed

lemma strip_id: "t \<noteq> [] \<Longrightarrow> \<not> isspace (hd t) \<Longrightarrow> \<not> isspace (last t) \<Longrightarrow> strip t = t"
  by (simp add: strip_def lstrip_id rstrip_id)

lemma small_letter_other:
  "is_small_letter c \<Longrightarrow> \<not> isspace c \<and> \<not> is_numeral_char c \<and> c \<noteq> CHR 0x0A"
  by (auto simp: is_small_letter_def isspace_def is_numeral_char_def is_decimal_def
      is_roman_capital_def)

lemma match_last_char:
  assumes "drop k s = g1 @ tok @ ws @ s'" and "is_numeral_token tok" and "list_all isspace ws"
    and "s' = [] \<or> s' = [CHR 0x0A]"
  shows "isspace (last s) \<or> is_numeral_char (last s) \<or> last s = CHR 0x0A"
proof -
  from assms(2) have tok: "tok \<noteq> []" "list_all is_numeral_char tok"
    by (simp_all add: is_numeral_token_def numeral_token_chars [OF assms(2)])
  with assms(1) have ne: "drop k s \<noteq> []" by simp
  then have "k < length s" by simp
  then have l: "last (drop k s) = last s" by simp
  show ?thesis
  proof (cases "s' = []")
    case False
    with assms(1,4) have "last (drop k s) = CHR 0x0A" by auto
    with l show ?thesis by simp
  next
    case True
    show ?thesis
    proof (cases "ws = []")
      case False
      with assms(1) True have "last (drop k s) = last ws" by simp
      moreover from False assms(3) have "isspace (last ws)" by (simp add: list_all_iff)
      ultimately show ?thesis using l by simp
    next
      case ws: True
      with assms(1) True tok(1) have "last (drop k s) = last tok" by simp
      moreover from tok have "is_numeral_char (last tok)" by (simp add: list_all_iff)
      ultimately show ?thesis using l by simp
    qed
  qed
qed

lemma small_letter_end_no_match:
  assumes "is_small_letter (last s)"
  shows "re_search page_number_re s = None \<and> re_search spaced_number_re s = None \<and>
         re_search page_match_re s = None"
proof -
  from small_letter_other [OF assms]
  have no: "\<not> (isspace (last s) \<or> is_numeral_char (last s) \<or> last s = CHR 0x0A)" by simp
  have 1: "re_search page_number_re s = None"
  proof (rule ccontr)
    assume "re_search page_number_re s \<noteq> None"
    then obtain m where "re_search page_number_re s = Some m" by auto
    from re_search_SomeD [OF this]
    have "(m_groups m, m_rest m) \<in> set (rmatch page_number_re (Map.empty, drop (m_start m) s))"
      by simp
    from page_number_re_memD [OF this] obtain g1 tok ws where
      "drop (m_start m) s = g1 @ tok @ ws @ m_rest m" "is_numeral_token tok"
      "list_all isspace ws" "m_rest m = [] \<or> m_rest m = [CHR 0x0A]" by blast
    from match_last_char [OF this] no show False by simp
  qed
  have 2: "re_search spaced_number_re s = None"
  proof (rule ccontr)
    assume "re_search spaced_number_re s \<noteq> None"
    then obtain m where "re_search spaced_number_re s = Some m" by auto
    from re_search_SomeD [OF this]
    have "(m_groups m, m_rest m) \<in> set (rmatch spaced_number_re (Map.empty, drop (m_start m) s))"
      by simp
    from spaced_number_re_memD [OF this] obtain g1 tok ws where
      "drop (m_start m) s = g1 @ tok @ ws @ m_rest m" "is_numeral_token tok"
      "list_all isspace ws" "m_rest m = [] \<or> m_rest m = [CHR 0x0A]" by blast
    from match_last_char [OF this] no show False by simp
  qed
  have 3: "re_search page_match_re s = None"
  proof (rule ccontr)
    assume "re_search page_match_re s \<noteq> None"
    then obtain m where "re_search page_match_re s = Some m" by auto
    from re_search_SomeD [OF this]
    have "(m_groups m, m_rest m) \<in> set (rmatch page_match_re (Map.empty, drop (m_start m) s))"
      by simp
    from page_match_re_memD [OF this] obtain ws tok where
      d: "tok \<noteq> []" "list_all is_decimal tok \<or> list_all is_roman_capital tok"
      "drop (m_start m) s = ws @ tok @ m_rest m" "m_rest m = [] \<or> m_rest m = [CHR 0x0A]" by blast
    from d(1,2) have t: "is_numeral_token tok" by (simp add: is_numeral_token_def)
    from d(3) have "drop (m_start m) s = ws @ tok @ [] @ m_rest m" by simp
    from match_last_char [OF this t _ d(4)] no show False by simp
  qed
  from 1 2 3 show ?thesis by simp
qed

lemma lstrip_keeps_last:
  assumes "s \<noteq> []" and "\<not> isspace (last s)"
  shows "lstrip s \<noteq> [] \<and> last (lstrip s) = last s"
proof -
  from assms have "last s \<in> set s" by simp
  with assms(2) have ne: "dropWhile isspace s \<noteq> []" by auto
  have "s = takeWhile isspace s @ dropWhile isspace s" by simp
  then have "last s = last (takeWhile isspace s @ dropWhile isspace s)" by simp
  also have "\<dots> = last (dropWhile isspace s)" using ne by (rule last_appendR)
  finally show ?thesis using ne by (simp add: lstrip_def)
qed


lemma token_normalized:
  assumes sep: "is_separator sep" and tok: "is_numeral_token tok"
    and pre: "pre \<noteq> []" "\<not> is_separator_char (hd pre)"
    and nl: "CHR 0x0A \<notin> set (pre @ sep)"
  shows "has_page_number (pre @ sep @ tok) \<and>
     (\<exists>t. t \<noteq> [] \<and> (\<exists>r. pre = t @ r) \<and>
        standardize_line (replicate n (CHR '' '') @ pre @ sep @ tok) =
          replicate n (CHR '' '') @ t @ '' '' @ tok \<and>
        line_item last_page (replicate n (CHR '' '') @ t @ '' '' @ tok) =
          (case convert_to_number tok of
             Inl e \<Rightarrow> Inl e
           | Inr page \<Rightarrow>
               Inr \<lparr>title = t, level = int (n div 4), page_number = page, children = []\<rparr>))"
proof -
  from pre(2) have hd_pre: "\<not> isspace (hd pre)" by (simp add: is_separator_char_def)
  from first_sub [OF sep tok pre nl] obtain u r1 where
    has: "has_page_number (pre @ sep @ tok)" and
    u: "u \<noteq> []" "pre = u @ r1" and
    s1: "re_sub page_number_re (\<lambda>m. '' '' @ group m 2) (pre @ sep @ tok) = u @ '' '' @ tok"
    by blast
  from u hd_pre have hd_u: "\<not> isspace (hd u)" by simp
  from u(2) nl have nl_u: "CHR 0x0A \<notin> set u" by simp
  from second_sub [OF tok u(1) hd_u nl_u] obtain t r2 where
    t: "t \<noteq> []" "u = t @ r2" "\<not> isspace (last t)" and
    s2: "re_sub spaced_number_re (\<lambda>m. '' '' @ group m 1) (u @ '' '' @ tok) = t @ '' '' @ tok"
    by blast
  from t(1,2) hd_u have hd_t: "\<not> isspace (hd t)" by simp
  from t(2) nl_u have nl_t: "CHR 0x0A \<notin> set t" by simp
  from t(2) u(2) have t_pre: "pre = t @ (r2 @ r1)" by simp
  have c_ne: "pre @ sep @ tok \<noteq> []" "\<not> isspace (hd (pre @ sep @ tok))"
    using pre(1) hd_pre by simp_all
  from indented_lstrip [OF c_ne, of n] s1 s2
  have std: "standardize_line (replicate n (CHR '' '') @ pre @ sep @ tok) =
      replicate n (CHR '' '') @ t @ '' '' @ tok"
    by (simp add: standardize_line_def Let_def)
  from page_match_found [OF tok t(1,3) nl_t] obtain m where
    m: "re_search page_match_re (t @ '' '' @ tok) = Some m" "m_start m = length t"
    "group m 1 = tok" by blast
  have c2: "t @ '' '' @ tok \<noteq> []" "\<not> isspace (hd (t @ '' '' @ tok))"
    using t(1) hd_t by simp_all
  from indented_lstrip [OF c2, of n] m strip_id [OF t(1) hd_t t(3)]
  have "line_item last_page (replicate n (CHR '' '') @ t @ '' '' @ tok) =
      (case convert_to_number tok of
         Inl e \<Rightarrow> Inl e
       | Inr page \<Rightarrow>
           Inr \<lparr>title = t, level = int (n div 4), page_number = page, children = []\<rparr>)"
    by (simp add: line_item_def Let_def split: sum.splits)
  with has t(1) t_pre std show ?thesis by blast
qed

lemma token_recognized:
  assumes sep: "is_separator sep" and tok: "is_numeral_token tok"
    and pre: "pre \<noteq> []" "\<not> is_separator_char (hd pre)"
    and nl: "CHR 0x0A \<notin> set (pre @ sep)"
    and len: "list_all is_decimal tok \<longrightarrow> length tok \<le> int_max_str_digits"
  shows "has_page_number (pre @ sep @ tok) \<and>
     (\<exists>t page. t \<noteq> [] \<and> (\<exists>r. pre = t @ r) \<and>
        standardize_line (replicate n (CHR '' '') @ pre @ sep @ tok) =
          replicate n (CHR '' '') @ t @ '' '' @ tok \<and>
        convert_to_number tok = Inr page \<and>
        line_item last_page (replicate n (CHR '' '') @ t @ '' '' @ tok) =
          Inr \<lparr>title = t, level = int (n div 4), page_number = page, children = []\<rparr>)"
proof -
  from tok len convert_to_number_numeral [of tok] obtain page where
    page: "convert_to_number tok = Inr page" by (auto simp: is_numeral_token_def)
  from token_normalized [OF sep tok pre nl, of n last_page] obtain t where
    has: "has_page_number (pre @ sep @ tok)" and
    t: "t \<noteq> []" "\<exists>r. pre = t @ r"
      "standardize_line (replicate n (CHR '' '') @ pre @ sep @ tok) =
         replicate n (CHR '' '') @ t @ '' '' @ tok" and
    item: "line_item last_page (replicate n (CHR '' '') @ t @ '' '' @ tok) =
      (case convert_to_number tok of
         Inl e \<Rightarrow> Inl e
       | Inr page \<Rightarrow>
           Inr \<lparr>title = t, level = int (n div 4), page_number = page, children = []\<rparr>)"
    by blast
  from item page
  have "line_item last_page (replicate n (CHR '' '') @ t @ '' '' @ tok) =
      Inr \<lparr>title = t, level = int (n div 4), page_number = page, children = []\<rparr>"
    by simp
  with has t page show ?thesis by blast
qed

lemma small_letter_not_recognized:
  assumes "s \<noteq> []" and "is_small_letter (last s)"
  shows "\<not> has_page_number s \<and> re_search spaced_number_re s = None \<and> \<not> specifies_page s \<and>
     line_item last_page s =
       Inr \<lparr>title = lstrip s, level = int (indent_of s div 4), page_number = last_page,
            children = []\<rparr>"
proof -
  from small_letter_end_no_match [OF assms(2)]
  have 1: "\<not> has_page_number s" "re_search spaced_number_re s = None"
    by (simp_all add: has_page_number_def)
  from small_letter_other [OF assms(2)] have "\<not> isspace (last s)" by simp
  from lstrip_keeps_last [OF assms(1) this] assms(2)
  have "is_small_letter (last (lstrip s))" by simp
  from small_letter_end_no_match [OF this]
  have 2: "re_search page_match_re (lstrip s) = None" by simp
  then have "\<not> specifies_page s" by (simp add: specifies_page_def)
  moreover from 2 have "line_item last_page s =
       Inr \<lparr>title = lstrip s, level = int (indent_of s div 4), page_number = last_page,
            children = []\<rparr>"
    by (simp add: line_item_def Let_def)
  ultimately show ?thesis using 1 by simp
qed

text \<open>
  Claim C5 as stated fails for a lowercase token: in the line Preface iv the token
  follows a space, but the Normalizer finds no page-number token and leaves the line
  as it is, and the Tree Builder keeps the token in the title and gives the node the
  inherited page 0. The same line with the capitals IV has the title Preface and
  page 4.
\<close>

theorem lowercase_token_counterexample:
  "is_separator '' '' \<and> is_small_roman_token ''iv'' \<and>
   \<not> has_page_number (''Preface'' @ '' '' @ ''iv'') \<and>
   normalize_outline (''Preface'' @ '' '' @ ''iv'') = ''Preface iv'' \<and>
   parse_outline (''Preface'' @ '' '' @ ''iv'') =
     Inr ([\<lparr>title = ''ROOT'', level = - 1, page_number = 0, children = [1]\<rparr>,
           \<lparr>title = ''Preface iv'', level = 0, page_number = 0, children = []\<rparr>], [1]) \<and>
   parse_outline (''Preface'' @ '' '' @ ''IV'') =
     Inr ([\<lparr>title = ''ROOT'', level = - 1, page_number = 0, children = [1]\<rparr>,
           \<lparr>title = ''Preface'', level = 0, page_number = 4, children = []\<rparr>], [1])"
  by code_simp

text \<open>
  Claim C5, amended. Let the content of a line begin with a character that is no
  white space, dot, dash or opening parenthesis, and end in a separator (a run of
  three or more dots, dashes and spaces, an opening parenthesis, or one white space
  character) followed by a run of Arabic digits, no more of them than the interpreter
  converts, or a run of Roman capitals. Then the
  Normalizer detects a page-number token in it and rewrites the line, at any
  indentation, to a part of the title that is not empty, one space and the token; and
  the Tree Builder splits the token off that line: the node has the part before as its
  title and the converted token as its page number. A lowercase token is not
  recognized: in a content that ends in a small letter the Normalizer detects no
  page-number token and has nothing to rewrite, and the Tree Builder leaves the whole
  content in the title and gives the node the inherited page number.
\<close>

theorem numeral_token_recognized:
  "(is_separator sep \<and> is_numeral_token tok \<and>
    (list_all is_decimal tok \<longrightarrow> length tok \<le> int_max_str_digits) \<and>
    pre \<noteq> [] \<and> \<not> is_separator_char (hd pre) \<and> CHR 0x0A \<notin> set (pre @ sep) \<longrightarrow>
      has_page_number (pre @ sep @ tok) \<and>
      (\<exists>t page. t \<noteq> [] \<and> (\<exists>r. pre = t @ r) \<and>
         standardize_line (replicate n (CHR '' '') @ pre @ sep @ tok) =
           replicate n (CHR '' '') @ t @ '' '' @ tok \<and>
         convert_to_number tok = Inr page \<and>
         line_item last_page (replicate n (CHR '' '') @ t @ '' '' @ tok) =
           Inr \<lparr>title = t, level = int (n div 4), page_number = page, children = []\<rparr>)) \<and>
   (s \<noteq> [] \<and> is_small_letter (last s) \<longrightarrow>
      \<not> has_page_number s \<and> re_search spaced_number_re s = None \<and> \<not> specifies_page s \<and>
      line_item last_page s =
        Inr \<lparr>title = lstrip s, level = int (indent_of s div 4), page_number = last_page,
             children = []\<rparr>)"
  using token_recognized [of sep tok pre n last_page]
    small_letter_not_recognized [of s last_page]
  by blast

text \<open>
  Claim C5 on a line with a dotted leader before the Roman capitals IV, indented by
  four columns, on a line with an opening parenthesis before the digits 12, and on the
  line Preface iv.
\<close>

theorem numeral_token_recognized_witness:
  "is_separator '' ..... '' \<and> is_numeral_token ''IV'' \<and> ''Preface'' \<noteq> [] \<and>
   \<not> is_separator_char (hd ''Preface'') \<and> CHR 0x0A \<notin> set (''Preface'' @ '' ..... '') \<and>
   has_page_number (''Preface'' @ '' ..... '' @ ''IV'') \<and>
   standardize_line (replicate 4 (CHR '' '') @ ''Preface'' @ '' ..... '' @ ''IV'') =
     ''    Preface IV'' \<and>
   line_item 0 ''    Preface IV'' =
     Inr \<lparr>title = ''Preface'', level = 1, page_number = 4, children = []\<rparr> \<and>
   is_separator ''('' \<and> is_numeral_token ''12'' \<and> list_all is_decimal ''12'' \<and>
   length ''12'' \<le> int_max_str_digits \<and> \<not> is_separator_char (hd ''Index '') \<and>
   CHR 0x0A \<notin> set (''Index '' @ ''('') \<and>
   has_page_number (''Index '' @ ''('' @ ''12'') \<and>
   standardize_line (replicate 0 (CHR '' '') @ ''Index '' @ ''('' @ ''12'') = ''Index 12'' \<and>
   line_item 0 ''Index 12'' =
     Inr \<lparr>title = ''Index'', level = 0, page_number = 12, children = []\<rparr> \<and>
   ''Preface iv'' \<noteq> [] \<and> is_small_letter (last ''Preface iv'') \<and>
   \<not> has_page_number ''Preface iv'' \<and> \<not> specifies_page ''Preface iv''"
proof -
  have h1: "is_separator '' ..... '' \<and> is_numeral_token ''IV'' \<and>
      (list_all is_decimal ''IV'' \<longrightarrow> length ''IV'' \<le> int_max_str_digits) \<and> ''Preface'' \<noteq> [] \<and>
      \<not> is_separator_char (hd ''Preface'') \<and> CHR 0x0A \<notin> set (''Preface'' @ '' ..... '')"
    by code_simp
  have h2: "''Preface iv'' \<noteq> [] \<and> is_small_letter (last ''Preface iv'')"
    by code_simp
  have h3: "is_separator ''('' \<and> is_numeral_token ''12'' \<and> list_all is_decimal ''12'' \<and>
      length ''12'' \<le> int_max_str_digits \<and> ''Index '' \<noteq> [] \<and>
      \<not> is_separator_char (hd ''Index '') \<and> CHR 0x0A \<notin> set (''Index '' @ ''('')"
    by code_simp
  have v: "standardize_line (replicate 4 (CHR '' '') @ ''Preface'' @ '' ..... '' @ ''IV'') =
      ''    Preface IV'' \<and>
    line_item 0 ''    Preface IV'' =
      Inr \<lparr>title = ''Preface'', level = 1, page_number = 4, children = []\<rparr> \<and>
    standardize_line (replicate 0 (CHR '' '') @ ''Index '' @ ''('' @ ''12'') = ''Index 12'' \<and>
    line_item 0 ''Index 12'' =
      Inr \<lparr>title = ''Index'', level = 0, page_number = 12, children = []\<rparr>"
    by code_simp
  from numeral_token_recognized [of "'' ..... ''" "''IV''" "''Preface''" 4 0 "''Preface iv''"]
    h1 h2
  have a: "has_page_number (''Preface'' @ '' ..... '' @ ''IV'') \<and>
    \<not> has_page_number ''Preface iv'' \<and> \<not> specifies_page ''Preface iv''"
    by blast
  from numeral_token_recognized [of "''(''" "''12''" "''Index ''" 0 0 "''Preface iv''"] h3
  have b: "has_page_number (''Index '' @ ''('' @ ''12'')"
    by blast
  from a b h1 h2 h3 v show ?thesis by blast
qed


section \<open>Runs of digits: proofs\<close>

lemma takeWhile_le_run: "length (takeWhile is_decimal s) \<le> longest_digit_run s"
  by (cases s) simp_all

lemma run_append_ge: "longest_digit_run s \<le> longest_digit_run (ps @ s)"
proof (induction ps)
  case Nil
  then show ?case by simp
next
  case (Cons p ps)
  have "longest_digit_run (ps @ s) \<le> longest_digit_run (p # ps @ s)" by simp
  with Cons show ?case by simp
qed

lemma digits_within_run:
  assumes "list_all is_decimal t"
  shows "length t \<le> longest_digit_run (ps @ t @ ss)"
proof -
  from assms have "takeWhile is_decimal (t @ ss) = t @ takeWhile is_decimal ss"
    by (simp add: takeWhile_append2 list_all_iff)
  then have "length t \<le> length (takeWhile is_decimal (t @ ss))" by simp
  also have "\<dots> \<le> longest_digit_run (t @ ss)" by (rule takeWhile_le_run)
  also have "\<dots> \<le> longest_digit_run (ps @ t @ ss)" by (rule run_append_ge)
  finally show ?thesis .
qed

lemma run_attained:
  "\<exists>ps t ss. s = ps @ t @ ss \<and> list_all is_decimal t \<and> length t = longest_digit_run s"
proof (induction s)
  case Nil
  then show ?case by simp
next
  case (Cons c s)
  show ?case
  proof (cases "longest_digit_run s \<le> length (takeWhile is_decimal (c # s))")
    case True
    have "c # s = [] @ takeWhile is_decimal (c # s) @ dropWhile is_decimal (c # s)" by simp
    moreover have "list_all is_decimal (takeWhile is_decimal (c # s))"
      by (auto simp: list_all_iff dest: set_takeWhileD)
    moreover from True
    have "length (takeWhile is_decimal (c # s)) = longest_digit_run (c # s)" by simp
    ultimately show ?thesis by blast
  next
    case False
    from Cons obtain ps t ss where
      s: "s = ps @ t @ ss" "list_all is_decimal t" "length t = longest_digit_run s" by blast
    from s(1) have "c # s = (c # ps) @ t @ ss" by simp
    moreover from False s(3) have "length t = longest_digit_run (c # s)" by simp
    ultimately show ?thesis using s(2) by blast
  qed
qed

lemma run_sublist: "longest_digit_run b \<le> longest_digit_run (a @ b @ c)"
proof -
  from run_attained [of b] obtain ps t ss where
    b: "b = ps @ t @ ss" "list_all is_decimal t" "length t = longest_digit_run b" by blast
  from digits_within_run [OF b(2), of "a @ ps" "ss @ c"] b(1,3) show ?thesis by simp
qed

lemma run_prefix: "longest_digit_run a \<le> longest_digit_run (a @ c)"
  using run_sublist [of a "[]" c] by simp

lemma takeWhile_before: "\<not> P x \<Longrightarrow> takeWhile P (a @ x # b) = takeWhile P a"
  by (induction a) simp_all

lemma run_separated:
  assumes "\<not> is_decimal x"
  shows "longest_digit_run (a @ x # b) = max (longest_digit_run a) (longest_digit_run b)"
proof (induction a)
  case Nil
  from assms show ?case by simp
next
  case (Cons c a)
  have "takeWhile is_decimal ((c # a) @ x # b) = takeWhile is_decimal (c # a)"
    using assms by (rule takeWhile_before)
  then have "longest_digit_run ((c # a) @ x # b) =
      max (length (takeWhile is_decimal (c # a))) (longest_digit_run (a @ x # b))"
    by simp
  with Cons show ?case by (simp add: max.assoc)
qed

lemma run_after_others:
  "list_all (\<lambda>x. \<not> is_decimal x) pre \<Longrightarrow> longest_digit_run (pre @ s) = longest_digit_run s"
  by (induction pre) simp_all

lemma space_char_not_decimal: "\<not> is_decimal (CHR '' '')"
  by (simp add: is_decimal_def)

lemma linefeed_not_decimal: "\<not> is_decimal (CHR 0x0A)"
  by (simp add: is_decimal_def)

lemma run_lstrip: "longest_digit_run (lstrip s) \<le> longest_digit_run s"
proof -
  have "s = takeWhile isspace s @ lstrip s" by (simp add: lstrip_def)
  with run_append_ge [of "lstrip s" "takeWhile isspace s"] show ?thesis by simp
qed

lemma run_rstrip: "longest_digit_run (rstrip s) \<le> longest_digit_run s"
proof -
  have "rstrip s @ rev (takeWhile isspace (rev s)) =
      rev (takeWhile isspace (rev s) @ dropWhile isspace (rev s))"
    by (simp only: rstrip_def rev_append)
  also have "\<dots> = s" by (simp only: takeWhile_dropWhile_id rev_rev_ident)
  finally have "s = rstrip s @ rev (takeWhile isspace (rev s))" by (rule sym)
  with run_prefix [of "rstrip s" "rev (takeWhile isspace (rev s))"] show ?thesis by simp
qed

lemma run_strip: "longest_digit_run (strip s) \<le> longest_digit_run s"
  using run_lstrip [of "rstrip s"] run_rstrip [of s] by (simp add: strip_def)


section \<open>Runs of digits through the normalizer\<close>

lemma takeWhile_expandtabs:
  "0 < ts \<Longrightarrow> takeWhile is_decimal (expandtabs_from ts k s) = takeWhile is_decimal s"
proof (induction s arbitrary: k)
  case Nil
  then show ?case by simp
next
  case (Cons ch rest)
  show ?case
  proof (cases "ch = CHR 0x09")
    case True
    from Cons.prems have "0 < ts - k mod ts" by simp
    then obtain j where "ts - k mod ts = Suc j" by (cases "ts - k mod ts") auto
    with True Cons.prems show ?thesis by (simp add: is_decimal_def)
  next
    case False
    with Cons show ?thesis by simp
  qed
qed

lemma run_expandtabs:
  "0 < ts \<Longrightarrow> longest_digit_run (expandtabs_from ts k s) = longest_digit_run s"
proof (induction s arbitrary: k)
  case Nil
  then show ?case by simp
next
  case (Cons ch rest)
  show ?case
  proof (cases "ch = CHR 0x09")
    case True
    have "list_all (\<lambda>x. \<not> is_decimal x) (replicate (ts - k mod ts) (CHR '' ''))"
      by (simp add: list_all_iff is_decimal_def)
    from run_after_others [OF this] True Cons show ?thesis by (simp add: is_decimal_def)
  next
    case False
    let ?k = "if ch = CHR 0x0A \<or> ch = CHR 0x0D then 0 else Suc k"
    from False have e: "expandtabs_from ts k (ch # rest) = ch # expandtabs_from ts ?k rest"
      by simp
    from takeWhile_expandtabs [OF Cons.prems, of ?k rest] Cons.IH [OF Cons.prems, of ?k]
    show ?thesis unfolding e by simp
  qed
qed

lemma splitlines_sublist: "l \<in> set (splitlines t) \<Longrightarrow> \<exists>a c. t = a @ l @ c"
proof (induction t arbitrary: l rule: splitlines.induct)
  case 1
  then show ?case by (simp add: splitlines.simps(1))
next
  case (2 c cs)
  define first where "first = takeWhile (\<lambda>x. \<not> is_linebreak x) (c # cs)"
  define rest where "rest = dropWhile (\<lambda>x. \<not> is_linebreak x) (c # cs)"
  have whole: "c # cs = first @ rest" by (simp add: first_def rest_def)
  then have first: "c # cs = [] @ first @ rest" by simp
  have eq: "splitlines (c # cs) =
      first # (case rest of [] \<Rightarrow> [] | b # bs \<Rightarrow>
        (case bs of [] \<Rightarrow> []
         | d # ds \<Rightarrow> if b = CHR 0x0D \<and> d = CHR 0x0A then splitlines ds else splitlines bs))"
    unfolding first_def rest_def by (rule splitlines.simps(2))
  show ?case
  proof (cases rest)
    case Nil
    with eq "2.prems" have "l = first" by simp
    with first show ?thesis by blast
  next
    case (Cons b bs)
    note rest_eq = Cons [unfolded rest_def]
    show ?thesis
    proof (cases bs)
      case Nil
      with eq "2.prems" Cons have "l = first" by simp
      with first show ?thesis by blast
    next
      case (Cons d ds)
      show ?thesis
      proof (cases "b = CHR 0x0D \<and> d = CHR 0x0A")
        case True
        with eq \<open>rest = b # bs\<close> Cons have "splitlines (c # cs) = first # splitlines ds"
          by simp
        with "2.prems" have "l = first \<or> l \<in> set (splitlines ds)" by simp
        then show ?thesis
        proof
          assume "l = first"
          with first show ?thesis by blast
        next
          assume "l \<in> set (splitlines ds)"
          from "2.IH"(1) [OF rest_eq Cons True this] obtain a e where "ds = a @ l @ e" by blast
          with whole \<open>rest = b # bs\<close> Cons have "c # cs = (first @ b # d # a) @ l @ e" by simp
          then show ?thesis by blast
        qed
      next
        case False
        with eq \<open>rest = b # bs\<close> Cons have "splitlines (c # cs) = first # splitlines bs"
          by simp
        with "2.prems" have "l = first \<or> l \<in> set (splitlines bs)" by simp
        then show ?thesis
        proof
          assume "l = first"
          with first show ?thesis by blast
        next
          assume "l \<in> set (splitlines bs)"
          from "2.IH"(2) [OF rest_eq Cons False this] obtain a e where "bs = a @ l @ e" by blast
          with whole \<open>rest = b # bs\<close> have "c # cs = (first @ b # a) @ l @ e" by simp
          then show ?thesis by blast
        qed
      qed
    qed
  qed
qed

lemma run_splitlines:
  "l \<in> set (splitlines t) \<Longrightarrow> longest_digit_run l \<le> longest_digit_run t"
proof -
  assume "l \<in> set (splitlines t)"
  from splitlines_sublist [OF this] obtain a c where "t = a @ l @ c" by blast
  with run_sublist [of l a c] show ?thesis by simp
qed

lemma run_raw_lines:
  "l \<in> set (raw_lines raw) \<Longrightarrow> longest_digit_run l \<le> longest_digit_run raw"
proof -
  assume "l \<in> set (raw_lines raw)"
  then obtain l' where l': "l' \<in> set (splitlines (expandtabs 4 raw))" "l = rstrip l'"
    by (auto simp: raw_lines_def)
  from run_rstrip [of l'] l'(2) have "longest_digit_run l \<le> longest_digit_run l'" by simp
  also from run_splitlines [OF l'(1)]
  have "\<dots> \<le> longest_digit_run (expandtabs 4 raw)" .
  also have "\<dots> = longest_digit_run raw" by (simp add: expandtabs_def run_expandtabs)
  finally show ?thesis .
qed


lemma indentation_no_digits:
  "list_all (\<lambda>x. \<not> is_decimal x) (concat (replicate k ''    ''))"
  by (induction k) (simp_all add: is_decimal_def)

lemma run_finalize_item:
  assumes "\<forall>l\<in>set (clean_lines st). longest_digit_run l \<le> n"
    and "\<forall>item. current_item st = Some item \<longrightarrow> longest_digit_run item \<le> n"
  shows "\<forall>l\<in>set (finalize_item st). longest_digit_run l \<le> n"
proof (cases "current_item st")
  case None
  with assms(1) show ?thesis by (simp add: finalize_item_def)
next
  case (Some item)
  with assms(2) have "longest_digit_run item \<le> n" by simp
  with run_after_others [OF indentation_no_digits, of "current_indent st" item] assms(1) Some
  show ?thesis by (simp add: finalize_item_def)
qed

lemma run_normalize_step:
  assumes "\<forall>l\<in>set (clean_lines st). longest_digit_run l \<le> n"
    and "\<forall>item. current_item st = Some item \<longrightarrow> longest_digit_run item \<le> n"
    and "longest_digit_run line \<le> n"
  shows "(\<forall>l\<in>set (clean_lines (normalize_step st line)). longest_digit_run l \<le> n) \<and>
         (\<forall>item. current_item (normalize_step st line) = Some item \<longrightarrow>
            longest_digit_run item \<le> n)"
proof -
  from run_strip [of line] assms(3) have content: "longest_digit_run (strip line) \<le> n" by simp
  show ?thesis
  proof (cases "is_continuation st (strip line)")
    case True
    show ?thesis
    proof (cases "current_item st")
      case None
      with True assms show ?thesis by (simp add: normalize_step_def Let_def)
    next
      case (Some item)
      with assms(2) have "longest_digit_run item \<le> n" by simp
      with content run_separated [OF space_char_not_decimal, of item "strip line"]
      have "longest_digit_run (item @ '' '' @ strip line) \<le> n" by simp
      with True Some assms(1) show ?thesis by (simp add: normalize_step_def Let_def)
    qed
  next
    case False
    from run_finalize_item [OF assms(1,2)] content False show ?thesis
      by (simp add: normalize_step_def Let_def)
  qed
qed

lemma run_normalize_loop:
  assumes "\<forall>l\<in>set (clean_lines st). longest_digit_run l \<le> n"
    and "\<forall>item. current_item st = Some item \<longrightarrow> longest_digit_run item \<le> n"
    and "\<forall>l\<in>set ls. longest_digit_run l \<le> n"
  shows "(\<forall>l\<in>set (clean_lines (foldl normalize_step st ls)). longest_digit_run l \<le> n) \<and>
         (\<forall>item. current_item (foldl normalize_step st ls) = Some item \<longrightarrow>
            longest_digit_run item \<le> n)"
  using assms
proof (induction ls arbitrary: st)
  case Nil
  then show ?case by simp
next
  case (Cons l ls)
  from Cons.prems(3) have l: "longest_digit_run l \<le> n"
    and ls: "\<forall>l\<in>set ls. longest_digit_run l \<le> n" by simp_all
  from run_normalize_step [OF Cons.prems(1,2) l]
  have "\<forall>l\<in>set (clean_lines (normalize_step st l)). longest_digit_run l \<le> n"
    "\<forall>item. current_item (normalize_step st l) = Some item \<longrightarrow> longest_digit_run item \<le> n"
    by simp_all
  from Cons.IH [OF this ls] show ?case by simp
qed

lemma run_token_sub:
  assumes sound: "\<And>g' s' k. (g', s') \<in> set (rmatch r (Map.empty, drop k s)) \<Longrightarrow>
      \<exists>g1 tok ws. drop k s = g1 @ tok @ ws @ s' \<and> g1 \<noteq> [] \<and> g' i = Some tok \<and>
        (s' = [] \<or> s' = [CHR 0x0A])"
    and none: "re_search r [] = None" "re_search r [CHR 0x0A] = None"
  shows "longest_digit_run (re_sub r (\<lambda>m. '' '' @ group m i) s) \<le> longest_digit_run s"
proof (cases "re_search r s")
  case None
  then have "re_sub r (\<lambda>m. '' '' @ group m i) s = s" by (subst re_sub.simps) simp
  then show ?thesis by simp
next
  case (Some m)
  let ?p = "m_start m"
  from re_search_SomeD [OF Some]
  have "(m_groups m, m_rest m) \<in> set (rmatch r (Map.empty, drop ?p s))" by simp
  from sound [OF this] obtain g1 tok ws where
    all: "drop ?p s = g1 @ tok @ ws @ m_rest m \<and> g1 \<noteq> [] \<and> m_groups m i = Some tok \<and>
      (m_rest m = [] \<or> m_rest m = [CHR 0x0A])" by blast
  then have d: "drop ?p s = g1 @ tok @ ws @ m_rest m" and g1: "g1 \<noteq> []"
    and grp: "group m i = tok" and rest: "m_rest m = [] \<or> m_rest m = [CHR 0x0A]"
    by (simp_all add: group_def)
  have whole: "s = take ?p s @ g1 @ tok @ ws @ m_rest m"
    using d append_take_drop_id [of ?p s] by simp
  have "length (drop ?p s) \<le> length s" by simp
  with d g1 have shorter: "length (m_rest m) < length s" by (cases g1) auto
  from rest none have tail: "re_sub r (\<lambda>m. '' '' @ group m i) (m_rest m) = m_rest m"
    by (subst re_sub.simps) auto
  have res: "re_sub r (\<lambda>m. '' '' @ group m i) s = take ?p s @ CHR '' '' # (tok @ m_rest m)"
    using Some shorter tail grp by (subst re_sub.simps) simp
  have 1: "longest_digit_run (take ?p s) \<le> longest_digit_run s"
    using run_prefix [of "take ?p s" "drop ?p s"] by simp
  have "longest_digit_run tok \<le> longest_digit_run s"
    using run_sublist [of tok "take ?p s @ g1" "ws @ m_rest m"] whole by simp
  moreover have "longest_digit_run (tok @ m_rest m) = longest_digit_run tok"
    using rest run_separated [OF linefeed_not_decimal, of tok "[]"] by auto
  ultimately have 2: "longest_digit_run (tok @ m_rest m) \<le> longest_digit_run s" by simp
  from 1 2 show ?thesis
    unfolding res by (simp add: run_separated [OF space_char_not_decimal])
qed


lemma run_standardize_line:
  "longest_digit_run (standardize_line line) \<le> longest_digit_run line"
proof -
  define c0 where "c0 = lstrip line"
  define c1 where "c1 = re_sub page_number_re (\<lambda>m. '' '' @ group m 2) c0"
  define c2 where "c2 = re_sub spaced_number_re (\<lambda>m. '' '' @ group m 1) c1"
  have n1: "re_search page_number_re [] = None" by code_simp
  have n1': "re_search page_number_re [CHR 0x0A] = None" by code_simp
  have n2: "re_search spaced_number_re [] = None" by code_simp
  have n2': "re_search spaced_number_re [CHR 0x0A] = None" by code_simp
  have "longest_digit_run c2 \<le> longest_digit_run c1"
    unfolding c2_def
  proof (rule run_token_sub [OF _ n2 n2'])
    fix g' s' k
    assume "(g', s') \<in> set (rmatch spaced_number_re (Map.empty, drop k c1))"
    from spaced_number_re_memD [OF this]
    show "\<exists>g1 tok ws. drop k c1 = g1 @ tok @ ws @ s' \<and> g1 \<noteq> [] \<and> g' 1 = Some tok \<and>
        (s' = [] \<or> s' = [CHR 0x0A])" by blast
  qed
  also have "\<dots> \<le> longest_digit_run c0"
    unfolding c1_def
  proof (rule run_token_sub [OF _ n1 n1'])
    fix g' s' k
    assume "(g', s') \<in> set (rmatch page_number_re (Map.empty, drop k c0))"
    from page_number_re_memD [OF this]
    show "\<exists>g1 tok ws. drop k c0 = g1 @ tok @ ws @ s' \<and> g1 \<noteq> [] \<and> g' 2 = Some tok \<and>
        (s' = [] \<or> s' = [CHR 0x0A])" by blast
  qed
  also have "\<dots> \<le> longest_digit_run line" unfolding c0_def by (rule run_lstrip)
  finally have "longest_digit_run c2 \<le> longest_digit_run line" .
  moreover have "list_all (\<lambda>x. \<not> is_decimal x) (replicate (indent_of line) (CHR '' ''))"
    by (simp add: list_all_iff is_decimal_def)
  from run_after_others [OF this, of c2]
  have "longest_digit_run (standardize_line line) = longest_digit_run c2"
    by (simp add: standardize_line_def Let_def c2_def c1_def c0_def)
  ultimately show ?thesis by simp
qed

lemma run_join_line_feed:
  "\<forall>l\<in>set ls. longest_digit_run l \<le> n \<Longrightarrow> longest_digit_run (join ''\<newline>'' ls) \<le> n"
proof (induction ls)
  case Nil
  then show ?case by simp
next
  case (Cons x ls)
  show ?case
  proof (cases ls)
    case Nil
    with Cons.prems show ?thesis by simp
  next
    case (Cons y ys)
    with Cons.IH Cons.prems have "longest_digit_run (join ''\<newline>'' (y # ys)) \<le> n" by simp
    moreover from Cons.prems have "longest_digit_run x \<le> n" by simp
    ultimately show ?thesis
      unfolding Cons join_line_feed_Cons
      by (simp add: run_separated [OF linefeed_not_decimal])
  qed
qed

lemma run_normalize_outline:
  "longest_digit_run (normalize_outline raw) \<le> longest_digit_run raw"
proof -
  let ?n = "longest_digit_run raw"
  let ?st = "foldl normalize_step norm_init (raw_lines raw)"
  have "\<forall>l\<in>set (raw_lines raw). longest_digit_run l \<le> ?n"
    using run_raw_lines by blast
  from run_normalize_loop [of norm_init ?n, OF _ _ this]
  have "\<forall>l\<in>set (clean_lines ?st). longest_digit_run l \<le> ?n"
    "\<forall>item. current_item ?st = Some item \<longrightarrow> longest_digit_run item \<le> ?n"
    by (simp_all add: norm_init_def)
  from run_finalize_item [OF this]
  have fin: "\<forall>l\<in>set (finalize_item ?st). longest_digit_run l \<le> ?n" .
  have "\<forall>l\<in>set (map standardize_line (finalize_item ?st)). longest_digit_run l \<le> ?n"
  proof
    fix l
    assume "l \<in> set (map standardize_line (finalize_item ?st))"
    then obtain l' where l': "l' \<in> set (finalize_item ?st)" "l = standardize_line l'" by auto
    from run_standardize_line [of l'] l'(2)
    have "longest_digit_run l \<le> longest_digit_run l'" by simp
    also from fin l'(1) have "\<dots> \<le> ?n" by simp
    finally show "longest_digit_run l \<le> ?n" .
  qed
  from run_join_line_feed [OF this] show ?thesis by (simp add: normalize_outline_def)
qed

lemma line_converts_run:
  assumes "longest_digit_run line \<le> int_max_str_digits"
  shows "line_converts line"
proof (cases "re_search page_match_re (lstrip line)")
  case None
  then show ?thesis by (simp add: line_converts_def line_item_def)
next
  case (Some m)
  let ?c = "lstrip line"
  from re_search_SomeD [OF Some]
  have "(m_groups m, m_rest m) \<in> set (rmatch page_match_re (Map.empty, drop (m_start m) ?c))"
    by simp
  from page_match_re_memD [OF this] obtain ws tok where
    all: "ws \<noteq> [] \<and> list_all isspace ws \<and> tok \<noteq> [] \<and>
      (list_all is_decimal tok \<or> list_all is_roman_capital tok) \<and>
      m_groups m = Map.empty(1 \<mapsto> tok) \<and> drop (m_start m) ?c = ws @ tok @ m_rest m \<and>
      (m_rest m = [] \<or> m_rest m = [CHR 0x0A])" by blast
  then have tok: "tok \<noteq> []" "list_all is_decimal tok \<or> list_all is_roman_capital tok"
    and grp: "group m 1 = tok" and d: "drop (m_start m) ?c = ws @ tok @ m_rest m"
    by (simp_all add: group_def)
  have whole: "?c = (take (m_start m) ?c @ ws) @ tok @ m_rest m"
    using d append_take_drop_id [of "m_start m" ?c] by simp
  have "length tok \<le> int_max_str_digits" if "list_all is_decimal tok"
  proof -
    from digits_within_run [OF that, of "take (m_start m) ?c @ ws" "m_rest m"] whole
    have "length tok \<le> longest_digit_run ?c" by simp
    also have "\<dots> \<le> longest_digit_run line" by (rule run_lstrip)
    finally show ?thesis using assms by simp
  qed
  with convert_to_number_numeral [OF tok] obtain n where "convert_to_number tok = Inr n"
    by blast
  with Some grp show ?thesis by (simp add: line_converts_def line_item_def)
qed

lemma clean_lines_convert:
  assumes "longest_digit_run clean \<le> int_max_str_digits"
  shows "\<forall>l\<in>set (clean_lines_of clean). line_converts l"
proof
  fix l
  assume "l \<in> set (clean_lines_of clean)"
  then have "l \<in> set (splitlines clean)" by (simp add: clean_lines_of_def)
  from run_splitlines [OF this] assms have "longest_digit_run l \<le> int_max_str_digits" by simp
  then show "line_converts l" by (rule line_converts_run)
qed

lemma parse_outline_within_limit:
  assumes "longest_digit_run raw \<le> int_max_str_digits"
  shows "\<exists>st roots. parse_outline raw = Inr (st, roots)"
proof -
  from run_normalize_outline [of raw] assms
  have "longest_digit_run (normalize_outline raw) \<le> int_max_str_digits" by simp
  from parse_clean_outline_ok [OF clean_lines_convert [OF this]]
  show ?thesis by (auto simp: parse_outline_def)
qed


section \<open>Outlines of one line\<close>


lemma expandtabs_no_tab: "CHR 0x09 \<notin> set s \<Longrightarrow> expandtabs_from ts k s = s"
  by (induction s arbitrary: k) auto

lemma one_line_normalize:
  assumes "tidy c" and "CHR 0x09 \<notin> set c"
  shows "normalize_outline c = standardize_line c"
proof -
  from assms(1) have ne: "c \<noteq> []" and nb: "\<forall>x\<in>set c. \<not> is_linebreak x"
    by (simp_all add: tidy_def)
  from tidy_strip_id [OF assms(1)] have s: "strip c = c" "lstrip c = c" "rstrip c = c"
    by simp_all
  from assms(2) have "expandtabs 4 c = c" by (simp add: expandtabs_def expandtabs_no_tab)
  with splitlines_single [OF ne nb] s ne have raw: "raw_lines c = [c]"
    by (simp add: raw_lines_def)
  from s(2) have ind: "indent_of c = 0" by (simp add: indent_of_def)
  have "finalize_item (foldl normalize_step norm_init (raw_lines c)) = [c]"
    unfolding raw
    by (simp add: normalize_step_def is_continuation_def norm_init_def finalize_item_def
        Let_def s ind)
  then show ?thesis by (simp add: normalize_outline_def)
qed

lemma one_line_parse:
  assumes "tidy c"
  shows "parse_clean_outline c =
     (case line_item 0 c of
        Inl e \<Rightarrow> Inl e
      | Inr item \<Rightarrow>
          Inr ([root_node\<lparr>children := [1]\<rparr>, item], [1]))"
proof -
  from assms have ne: "c \<noteq> []" and nb: "\<forall>x\<in>set c. \<not> is_linebreak x"
    by (simp_all add: tidy_def)
  from tidy_strip_id [OF assms] have s: "strip c = c" by simp
  from splitlines_single [OF ne nb] s ne have ls: "clean_lines_of c = [c]"
    by (simp add: clean_lines_of_def)
  from s ne have "strip c \<noteq> []" by simp
  from parse_step_line_item [OF this, of parse_init]
  have step: "parse_step parse_init c =
      (case line_item 0 c of Inl e \<Rightarrow> Inl e
       | Inr item \<Rightarrow> add_item parse_init item (page_number item))"
    by (simp add: parse_init_def)
  show ?thesis
  proof (cases "line_item 0 c")
    case (Inl e)
    with step ls show ?thesis by (simp add: parse_clean_outline_def)
  next
    case (Inr item)
    from line_item_shape [OF Inr] have "0 \<le> level item" by simp
    then have "add_item parse_init item (page_number item) =
        Inr \<lparr>store = [root_node\<lparr>children := [1]\<rparr>, item], stack = [1, 0],
             last_page_number = page_number item\<rparr>"
      by (simp add: add_item_def parse_init_def root_node_def Let_def)
    with step ls Inr show ?thesis by (simp add: parse_clean_outline_def)
  qed
qed


section \<open>Totality within the limit of the interpreter\<close>

lemma decimal_not_space: "is_decimal c \<Longrightarrow> \<not> isspace c"
  using space_not_decimal by blast

lemma long_token_raises:
  assumes sep: "is_separator sep"
    and tok: "list_all is_decimal tok" "int_max_str_digits < length tok"
    and pre: "pre \<noteq> []" "\<not> is_separator_char (hd pre)"
    and plain: "\<forall>x\<in>set (pre @ sep). \<not> is_linebreak x \<and> x \<noteq> CHR 0x09"
  shows "parse_outline (pre @ sep @ tok) = Inl ValueError"
proof -
  let ?c = "pre @ sep @ tok"
  from tok(2) have tok_ne: "tok \<noteq> []" by auto
  with tok(1) have numeral: "is_numeral_token tok" by (simp add: is_numeral_token_def)
  from plain linefeed_is_linebreak have nl: "CHR 0x0A \<notin> set (pre @ sep)" by blast
  from tok(1) have digits: "\<forall>x\<in>set tok. is_decimal x" by (simp add: list_all_iff)
  have tok_plain: "\<forall>x\<in>set tok. \<not> is_linebreak x \<and> x \<noteq> CHR 0x09"
  proof
    fix x
    assume "x \<in> set tok"
    with digits have "is_decimal x" by simp
    then show "\<not> is_linebreak x \<and> x \<noteq> CHR 0x09"
      by (auto simp: is_decimal_def is_linebreak_def)
  qed
  from pre(2) have hd_pre: "\<not> isspace (hd pre)" by (simp add: is_separator_char_def)
  have tidy_c: "tidy ?c"
    unfolding tidy_def
  proof (intro conjI)
    show "?c \<noteq> []" using pre(1) by simp
    show "\<not> isspace (hd ?c)" using pre(1) hd_pre by simp
    show "\<not> isspace (last ?c)"
      using tok_ne digits decimal_not_space [of "last tok"] by simp
    show "\<forall>x\<in>set ?c. \<not> is_linebreak x" using plain tok_plain by auto
  qed
  have no_tab: "CHR 0x09 \<notin> set ?c" using plain tok_plain by auto
  from token_normalized [OF sep numeral pre nl, of 0 0] obtain t r where
    t: "t \<noteq> []" "pre = t @ r" and
    std: "standardize_line ?c = t @ '' '' @ tok" and
    item: "line_item 0 (t @ '' '' @ tok) =
      (case convert_to_number tok of
         Inl e \<Rightarrow> Inl e
       | Inr page \<Rightarrow> Inr \<lparr>title = t, level = int (0 div 4), page_number = page, children = []\<rparr>)"
    by auto
  from convert_to_number_long_digits [OF tok] item
  have raises: "line_item 0 (t @ '' '' @ tok) = Inl ValueError" by simp
  have tidy_t: "tidy (t @ '' '' @ tok)"
    unfolding tidy_def
  proof (intro conjI)
    show "t @ '' '' @ tok \<noteq> []" by simp
    show "\<not> isspace (hd (t @ '' '' @ tok))" using t hd_pre by simp
    show "\<not> isspace (last (t @ '' '' @ tok))"
      using tok_ne digits decimal_not_space [of "last tok"] by simp
    show "\<forall>x\<in>set (t @ '' '' @ tok). \<not> is_linebreak x"
      using plain tok_plain t(2) space_no_linebreak by auto
  qed
  from one_line_normalize [OF tidy_c no_tab] std
  have "normalize_outline ?c = t @ '' '' @ tok" by simp
  with one_line_parse [OF tidy_t] raises show ?thesis by (simp add: parse_outline_def)
qed

text \<open>
  Claim C8 as stated fails at the line of the letter x, a space and 4301 digits 1: the
  tree builder splits the digits off as the page token, and \<open>int\<close> raises ValueError
  on a text of more than 4300 digits, which nothing in the parser catches.
\<close>

theorem parse_outline_long_digits_counterexample:
  "parse_outline (''x '' @ replicate 4301 (CHR ''1'')) = Inl ValueError"
proof -
  have "parse_outline (''x'' @ '' '' @ replicate 4301 (CHR ''1'')) = Inl ValueError"
  proof (rule long_token_raises)
    show "is_separator '' ''" by (simp add: is_separator_def isspace_def)
    show "list_all is_decimal (replicate 4301 (CHR ''1''))"
      by (simp add: list_all_iff is_decimal_def)
    show "int_max_str_digits < length (replicate 4301 (CHR ''1''))"
      by (simp add: int_max_str_digits_def)
    show "''x'' \<noteq> []" by simp
    show "\<not> is_separator_char (hd ''x'')"
      by (simp add: is_separator_char_def is_dot_dash_space_def isspace_def)
    show "\<forall>x\<in>set (''x'' @ '' ''). \<not> is_linebreak x \<and> x \<noteq> CHR 0x09"
      by (simp add: is_linebreak_def)
  qed
  then show ?thesis by simp
qed

text \<open>
  Claim C8, amended. \<open>parse_outline\<close> returns a forest for every text in which no
  run of Arabic digits is longer than the interpreter converts: the page token the
  tree builder splits off is a run of Roman capitals, which converts whatever its
  letters are, or a run of Arabic digits of the text, and the unwinding never empties the
  stack, because it stops at the root. The empty text gives the empty forest: the
  store holds the root alone, and the root has no children.
\<close>

theorem parse_outline_returns:
  "(longest_digit_run raw \<le> int_max_str_digits \<longrightarrow>
      (\<exists>st roots. parse_outline raw = Inr (st, roots))) \<and>
   parse_outline [] = Inr ([root_node], [])"
proof
  show "longest_digit_run raw \<le> int_max_str_digits \<longrightarrow>
      (\<exists>st roots. parse_outline raw = Inr (st, roots))"
    using parse_outline_within_limit by blast
  show "parse_outline [] = Inr ([root_node], [])" by code_simp
qed

text \<open>
  Claim C8 on an outline with indentations that are no multiples of four, a malformed
  Roman numeral and a number with leading zeros: its longest run of digits has three
  digits, and it parses to a forest.
\<close>

theorem parse_outline_returns_witness:
  "longest_digit_run ''   Intro IIII\<newline> Part 12\<newline>          End ...007'' \<le> int_max_str_digits \<and>
   parse_outline ''   Intro IIII\<newline> Part 12\<newline>          End ...007'' =
     Inr ([\<lparr>title = ''ROOT'', level = - 1, page_number = 0, children = [1, 2]\<rparr>,
           \<lparr>title = ''Intro'', level = 0, page_number = 4, children = []\<rparr>,
           \<lparr>title = ''Part'', level = 0, page_number = 12, children = [3]\<rparr>,
           \<lparr>title = ''End'', level = 2, page_number = 7, children = []\<rparr>], [1, 2])"
proof -
  have run: "longest_digit_run ''   Intro IIII\<newline> Part 12\<newline>          End ...007''
      \<le> int_max_str_digits"
    by code_simp
  have val: "parse_outline ''   Intro IIII\<newline> Part 12\<newline>          End ...007'' =
     Inr ([\<lparr>title = ''ROOT'', level = - 1, page_number = 0, children = [1, 2]\<rparr>,
           \<lparr>title = ''Intro'', level = 0, page_number = 4, children = []\<rparr>,
           \<lparr>title = ''Part'', level = 0, page_number = 12, children = [3]\<rparr>,
           \<lparr>title = ''End'', level = 2, page_number = 7, children = []\<rparr>], [1, 2])"
    by code_simp
  from parse_outline_returns [of "''   Intro IIII\<newline> Part 12\<newline>          End ...007''"] run
  have "\<exists>st roots. parse_outline ''   Intro IIII\<newline> Part 12\<newline>          End ...007'' =
      Inr (st, roots)"
    by blast
  with run val show ?thesis by blast
qed

section \<open>The examples of the specification\<close>

lemma roman_examples:
  "convert_to_number ''IV'' = Inr 4 \<and> convert_to_number ''IX'' = Inr 9 \<and>
   convert_to_number ''MCMXCIV'' = Inr 1994 \<and> convert_to_number [] = Inr 0"
  by code_simp

lemma end_to_end_example:
  "parse_outline ''PREFACE 1\<newline>CHAPTER 1. INTRODUCTION 2\<newline>    1.1 Background 3'' =
     Inr ([\<lparr>title = ''ROOT'', level = - 1, page_number = 0, children = [1, 2]\<rparr>,
           \<lparr>title = ''PREFACE'', level = 0, page_number = 1, children = []\<rparr>,
           \<lparr>title = ''CHAPTER 1. INTRODUCTION'', level = 0, page_number = 2, children = [3]\<rparr>,
           \<lparr>title = ''1.1 Background'', level = 1, page_number = 3, children = []\<rparr>],
          [1, 2])"
  by code_simp

lemma wrapped_title_example:
  "parse_outline ''Some Title\<newline>    that wraps 7'' =
     Inr ([\<lparr>title = ''ROOT'', level = - 1, page_number = 0, children = [1]\<rparr>,
           \<lparr>title = ''Some Title'', level = 0, page_number = 0, children = [2]\<rparr>,
           \<lparr>title = ''that wraps'', level = 1, page_number = 7, children = []\<rparr>],
          [1])"
  by code_simp

lemma malformed_indent_example:
  "parse_outline ''  Two columns 5'' =
     Inr ([\<lparr>title = ''ROOT'', level = - 1, page_number = 0, children = [1]\<rparr>,
           \<lparr>title = ''Two columns'', level = 0, page_number = 5, children = []\<rparr>],
          [1])"
  by code_simp

end
